theory Spec2Isabelle
  imports Complex_Main
begin

section \<open>Data model of \<open>catalyst/exchange/exchange_bundle.py\<close>\<close>

text \<open>
  A timestamp is the exact number of minutes since the epoch, a rational number, and a
  duration is a rational number of minutes: \<open>timedelta(minutes=x)\<close> is \<open>x\<close>,
  \<open>ts.floor('1 min')\<close> is the integer part. All timestamps are in UTC, so every
  comparison between two of them is defined.
\<close>

type_synonym timestamp = rat

record asset =
  sid :: int
  symbol :: string
  start_date :: timestamp

record candle =
  last_traded :: timestamp
  candle_open :: rat
  candle_high :: rat
  candle_low :: rat
  candle_close :: rat
  candle_volume :: rat

text \<open>The exceptions that the module raises or lets through.\<close>

datatype exn =
    ValueError string
  | TypeError
  | IOError
  | BcolzMinuteOverlappingData
  | OtherException string

text \<open>
  What \<open>reader.get_value(sid, dt, 'close')\<close> followed by \<open>np.isnan\<close> can do: raise,
  yield NaN, or yield a number.
\<close>

datatype reading = ReadRaises | ReadNaN | ReadValue rat

text \<open>
  The store and the exchange are external. Their state is a value of an arbitrary type
  \<open>'w\<close>; a reader handle answers \<open>get_value\<close> from the current state, a writer handle
  either raises or returns the new state.
\<close>

type_synonym 'w reader = "'w \<Rightarrow> int \<Rightarrow> timestamp \<Rightarrow> string \<Rightarrow> reading"

type_synonym series = "(timestamp \<times> candle) list"

type_synonym 'w writer = "'w \<Rightarrow> (int \<times> series) list \<Rightarrow> exn option \<times> 'w"

text \<open>
  The collaborators of the module: the exchange's request limit, \<open>fetch_candles_chunk\<close>
  (arguments: assets, frequency token, \<open>end_dt\<close>, \<open>bar_count\<close>), and the constructors of the
  store's readers and writers. A writer constructor stands for everything the \<open>writer\<close>
  property does to obtain a handle for one frequency (calendar, directory, open or create).
  A call that can change the external state returns the new state with its result.
\<close>

record 'w env =
  num_candles_limit :: int
  fetch_candles_chunk ::
    "'w \<Rightarrow> asset list \<Rightarrow> string \<Rightarrow> timestamp \<Rightarrow> rat \<Rightarrow> (exn + (asset \<times> candle list) list) \<times> 'w"
  BcolzMinuteBarReader :: "'w \<Rightarrow> exn + 'w reader"
  BcolzDailyBarReader :: "'w \<Rightarrow> exn + 'w reader"
  BcolzMinuteBarWriter :: "'w \<Rightarrow> (exn + 'w writer) \<times> 'w"
  BcolzDailyBarWriter :: "'w \<Rightarrow> (exn + 'w writer) \<times> 'w"

text \<open>The fields of an \<open>ExchangeBundle\<close>; \<open>cached_reader\<close> is \<open>_reader\<close>, \<open>cached_writer\<close> is \<open>_writer\<close>.\<close>

record 'w exchange_bundle =
  data_frequency :: string
  assets :: "asset list"
  start :: timestamp
  end_dt :: timestamp
  cached_reader :: "'w reader option"
  cached_writer :: "'w writer option"

section \<open>Range resolution: \<open>get_adj_dates\<close>\<close>

text \<open>The loop over \<open>self.assets\<close> that keeps the smallest \<open>start_date\<close>; \<open>None\<close> before the first asset.\<close>

fun earliest_trade_loop :: "timestamp option \<Rightarrow> asset list \<Rightarrow> timestamp option" where
  "earliest_trade_loop earliest_trade [] = earliest_trade"
| "earliest_trade_loop earliest_trade (a # rest) =
     earliest_trade_loop
       (case earliest_trade of
          None \<Rightarrow> Some (start_date a)
        | Some e \<Rightarrow> if e > start_date a then Some (start_date a) else Some e)
       rest"

text \<open>
  \<open>now\<close> is the value of \<open>pd.Timestamp.utcnow()\<close>. With no asset, \<open>earliest_trade\<close> is still
  \<open>None\<close> at the comparison \<open>earliest_trade > start\<close>, which raises \<open>TypeError\<close>.
\<close>

definition get_adj_dates ::
  "timestamp \<Rightarrow> asset list \<Rightarrow> timestamp \<Rightarrow> timestamp \<Rightarrow> exn + (timestamp \<times> timestamp)" where
  "get_adj_dates now self_assets start0 end0 =
     (let end1 = (if end0 > now then now else end0) in
      case earliest_trade_loop None self_assets of
        None \<Rightarrow> Inl TypeError
      | Some earliest_trade \<Rightarrow>
          (let start1 = (if earliest_trade > start0 then earliest_trade else start0) in
           if start1 \<ge> end1
           then Inl (ValueError ''start date cannot be after end date'')
           else Inr (start1, end1)))"

section \<open>The reader property and \<open>check_data_exists\<close>\<close>

text \<open>
  The property returns the cached handle if there is one; otherwise it calls the
  constructor for the frequency, keeps the handle on success, and returns \<open>None\<close> when the
  constructor raises \<open>IOError\<close>. Any other exception of the constructor propagates.
\<close>

definition open_reader :: "(exn + 'w reader) \<Rightarrow> 'w exchange_bundle \<Rightarrow> exn + ('w reader option \<times> 'w exchange_bundle)" where
  "open_reader r self =
     (case r of
        Inr rd \<Rightarrow> Inr (Some rd, self\<lparr>cached_reader := Some rd\<rparr>)
      | Inl IOError \<Rightarrow> Inr (None, self)
      | Inl e \<Rightarrow> Inl e)"

definition reader :: "'w env \<Rightarrow> 'w \<Rightarrow> 'w exchange_bundle \<Rightarrow> exn + ('w reader option \<times> 'w exchange_bundle)" where
  "reader ev w self =
     (case cached_reader self of
        Some rd \<Rightarrow> Inr (Some rd, self)
      | None \<Rightarrow>
          if data_frequency self = ''minute'' then open_reader (BcolzMinuteBarReader ev w) self
          else if data_frequency self = ''daily'' then open_reader (BcolzDailyBarReader ev w) self
          else Inl (ValueError (''invalid frequency '' @ data_frequency self)))"

text \<open>
  The body of the \<open>try\<close> for one asset: the value at \<open>start\<close> is read first, the value at
  \<open>end\<close> only if the first one is a number; every exception gives \<open>False\<close>.
\<close>

definition endpoints_present :: "'w reader \<Rightarrow> 'w \<Rightarrow> asset \<Rightarrow> timestamp \<Rightarrow> timestamp \<Rightarrow> bool" where
  "endpoints_present rd w a chunk_start chunk_end =
     (case rd w (sid a) chunk_start ''close'' of
        ReadRaises \<Rightarrow> False
      | ReadNaN \<Rightarrow> False
      | ReadValue start_close \<Rightarrow>
          (case rd w (sid a) chunk_end ''close'' of
             ReadRaises \<Rightarrow> False
           | ReadNaN \<Rightarrow> False
           | ReadValue end_close \<Rightarrow> True))"

fun check_loop ::
  "'w env \<Rightarrow> 'w \<Rightarrow> timestamp \<Rightarrow> timestamp \<Rightarrow> asset list \<Rightarrow> bool \<Rightarrow> 'w exchange_bundle \<Rightarrow> exn + (bool \<times> 'w exchange_bundle)" where
  "check_loop ev w chunk_start chunk_end [] has_data self = Inr (has_data, self)"
| "check_loop ev w chunk_start chunk_end (a # rest) has_data self =
     (if has_data then
        (case reader ev w self of
           Inl e \<Rightarrow> Inl e
         | Inr (None, self') \<Rightarrow> check_loop ev w chunk_start chunk_end rest False self'
         | Inr (Some rd, self') \<Rightarrow>
             check_loop ev w chunk_start chunk_end rest
               (endpoints_present rd w a chunk_start chunk_end) self')
      else check_loop ev w chunk_start chunk_end rest False self)"

definition check_data_exists ::
  "'w env \<Rightarrow> 'w \<Rightarrow> 'w exchange_bundle \<Rightarrow> asset list \<Rightarrow> timestamp \<Rightarrow> timestamp \<Rightarrow> exn + (bool \<times> 'w exchange_bundle)" where
  "check_data_exists ev w self chunk_assets chunk_start chunk_end =
     check_loop ev w chunk_start chunk_end chunk_assets True self"

section \<open>Chunk planning in \<open>ingest\<close>\<close>

text \<open>A planned chunk: the dictionary \<open>dict(end=..., bar_count=...)\<close>.\<close>

record chunk =
  chunk_end :: timestamp
  chunk_bar_count :: rat

text \<open>
  \<open>delta_periods\<close> and the frequency token: minutes for \<open>'minute'\<close>, days for \<open>'daily'\<close>,
  \<open>ValueError\<close> for anything else.
\<close>

definition delta_periods :: "string \<Rightarrow> timestamp \<Rightarrow> timestamp \<Rightarrow> exn + (rat \<times> string)" where
  "delta_periods freq self_start self_end =
     (let delta = self_end - self_start in
      if freq = ''minute'' then Inr (delta, ''1m'')
      else if freq = ''daily'' then Inr (delta / 60 / 24, ''1d'')
      else Inl (ValueError ''frequency not supported''))"

text \<open>
  The \<open>while\<close> loop that walks back from the end of the range. Nothing in the code bounds
  \<open>bar_count\<close> from below, so the loop need not terminate: \<open>None\<close> is the run that never
  leaves it.
\<close>

partial_function (option) chunk_loop ::
  "timestamp \<Rightarrow> int \<Rightarrow> timestamp \<Rightarrow> chunk list \<Rightarrow> chunk list option" where
  "chunk_loop self_start bar_count last_chunk_date chunks =
     (if last_chunk_date > self_start + of_int bar_count
      then chunk_loop self_start bar_count (last_chunk_date - of_int (bar_count + 1))
             (chunks @ [\<lparr>chunk_end = last_chunk_date, chunk_bar_count = of_int bar_count\<rparr>])
      else Some chunks)"

declare chunk_loop.simps [code]

definition plan_chunks ::
  "int \<Rightarrow> timestamp \<Rightarrow> timestamp \<Rightarrow> rat \<Rightarrow> chunk list option" where
  "plan_chunks limit self_start self_end periods =
     (if periods > of_int limit
      then map_option rev (chunk_loop self_start limit (of_int \<lfloor>self_end\<rfloor>) [])
      else Some [\<lparr>chunk_end = self_end, chunk_bar_count = periods\<rparr>])"

text \<open>Planning from the bundle's own fields, as \<open>ingest\<close> does before it starts on the chunks.\<close>

definition planned_chunks ::
  "string \<Rightarrow> int \<Rightarrow> timestamp \<Rightarrow> timestamp \<Rightarrow> (exn + chunk list) option" where
  "planned_chunks freq limit self_start self_end =
     (case delta_periods freq self_start self_end of
        Inl e \<Rightarrow> Some (Inl e)
      | Inr (periods, frequency) \<Rightarrow> map_option Inr (plan_chunks limit self_start self_end periods))"

text \<open>
  The window of a chunk as the pipeline walks it: from
  \<open>chunk_end - timedelta(minutes=bar_count)\<close> to \<open>chunk_end\<close>, both included.
\<close>

definition chunk_start_of :: "chunk \<Rightarrow> timestamp" where
  "chunk_start_of c = chunk_end c - chunk_bar_count c"

section \<open>Reconciliation of the fetched candles\<close>

text \<open>
  The inner \<open>while date <= chunk_end\<close> loop for one asset. \<open>rows\<close> holds \<open>all_dates\<close> and
  \<open>all_candles\<close> side by side; \<open>previous_candle\<close> is the dictionary kept over the whole run.
\<close>

function fill_loop ::
  "asset \<Rightarrow> candle list \<Rightarrow> timestamp \<Rightarrow> timestamp \<Rightarrow> (asset \<rightharpoonup> candle) \<Rightarrow> series
     \<Rightarrow> series \<times> (asset \<rightharpoonup> candle)" where
  "fill_loop a asset_candles chunk_end0 date previous_candle rows =
     (if date \<le> chunk_end0 then
        (case (case find (\<lambda>c. last_traded c = date) asset_candles of
                 Some c \<Rightarrow> Some c
               | None \<Rightarrow> previous_candle a) of
           Some c \<Rightarrow>
             fill_loop a asset_candles chunk_end0 (date + 1)
               (previous_candle(a \<mapsto> c)) (rows @ [(date, c)])
         | None \<Rightarrow> fill_loop a asset_candles chunk_end0 (date + 1) previous_candle rows)
      else (rows, previous_candle))"
  by pat_completeness auto
termination
proof (relation "measure (\<lambda>(a, asset_candles, chunk_end0, date, previous_candle, rows).
                   nat (\<lfloor>chunk_end0 - date\<rfloor> + 1))", goal_cases)
  case 1
  show ?case by simp
next
  case (2 a asset_candles chunk_end0 date previous_candle rows)
  have "\<lfloor>chunk_end0 - (date + 1)\<rfloor> = \<lfloor>(chunk_end0 - date) - 1\<rfloor>"
    by (simp add: diff_diff_eq)
  also have "\<dots> = \<lfloor>chunk_end0 - date\<rfloor> - 1"
    by (rule floor_diff_one)
  finally have "\<lfloor>chunk_end0 - (date + 1)\<rfloor> = \<lfloor>chunk_end0 - date\<rfloor> - 1" .
  moreover from 2 have "0 \<le> \<lfloor>chunk_end0 - date\<rfloor>" by simp
  ultimately show ?case by simp
next
  case (3 a asset_candles chunk_end0 date previous_candle rows c)
  have "\<lfloor>chunk_end0 - (date + 1)\<rfloor> = \<lfloor>(chunk_end0 - date) - 1\<rfloor>"
    by (simp add: diff_diff_eq)
  also have "\<dots> = \<lfloor>chunk_end0 - date\<rfloor> - 1"
    by (rule floor_diff_one)
  finally have "\<lfloor>chunk_end0 - (date + 1)\<rfloor> = \<lfloor>chunk_end0 - date\<rfloor> - 1" .
  moreover from 3 have "0 \<le> \<lfloor>chunk_end0 - date\<rfloor>" by simp
  ultimately show ?case by simp
qed

declare fill_loop.simps [simp del]

text \<open>
  The body of \<open>for asset in candles\<close>: an asset with no fetched candle is skipped before
  the walk; otherwise the rows become a frame, sorted by date, that is appended to \<open>data\<close>
  unless it is empty.
\<close>

definition reconcile_asset ::
  "timestamp \<Rightarrow> timestamp \<Rightarrow> asset \<times> candle list
     \<Rightarrow> (asset \<rightharpoonup> candle) \<times> (int \<times> series) list \<times> nat
     \<Rightarrow> (asset \<rightharpoonup> candle) \<times> (int \<times> series) list \<times> nat" where
  "reconcile_asset chunk_start0 chunk_end0 entry acc =
     (case entry of (a, asset_candles) \<Rightarrow>
      case acc of (previous_candle, data, num_candles) \<Rightarrow>
        if asset_candles = [] then (previous_candle, data, num_candles)
        else
          (case fill_loop a asset_candles chunk_end0 chunk_start0 previous_candle [] of
             (rows, previous_candle') \<Rightarrow>
               if rows \<noteq> []
               then (previous_candle', data @ [(sid a, sort_key fst rows)],
                     num_candles + length rows)
               else (previous_candle', data, num_candles)))"

definition reconcile ::
  "timestamp \<Rightarrow> timestamp \<Rightarrow> (asset \<times> candle list) list \<Rightarrow> (asset \<rightharpoonup> candle)
     \<Rightarrow> (asset \<rightharpoonup> candle) \<times> (int \<times> series) list \<times> nat" where
  "reconcile chunk_start0 chunk_end0 candles previous_candle =
     fold (reconcile_asset chunk_start0 chunk_end0) candles (previous_candle, [], 0)"

text \<open>The series that one asset gets in one chunk, and the carried candles after it.\<close>

definition asset_series ::
  "timestamp \<Rightarrow> timestamp \<Rightarrow> asset \<Rightarrow> candle list \<Rightarrow> (asset \<rightharpoonup> candle) \<Rightarrow> series" where
  "asset_series chunk_start0 chunk_end0 a asset_candles previous_candle =
     (if asset_candles = [] then []
      else sort_key fst (fst (fill_loop a asset_candles chunk_end0 chunk_start0 previous_candle [])))"

section \<open>The writer property and the loop over the chunks\<close>

definition open_writer ::
  "(exn + 'w writer) \<times> 'w \<Rightarrow> 'w exchange_bundle \<Rightarrow> (exn + ('w writer \<times> 'w exchange_bundle)) \<times> 'w" where
  "open_writer r self =
     (case r of
        (Inr wr, w') \<Rightarrow> (Inr (wr, self\<lparr>cached_writer := Some wr\<rparr>), w')
      | (Inl e, w') \<Rightarrow> (Inl e, w'))"

definition writer ::
  "'w env \<Rightarrow> 'w \<Rightarrow> 'w exchange_bundle \<Rightarrow> (exn + ('w writer \<times> 'w exchange_bundle)) \<times> 'w" where
  "writer ev w self =
     (case cached_writer self of
        Some wr \<Rightarrow> (Inr (wr, self), w)
      | None \<Rightarrow>
          if data_frequency self = ''minute'' then open_writer (BcolzMinuteBarWriter ev w) self
          else if data_frequency self = ''daily'' then open_writer (BcolzDailyBarWriter ev w) self
          else (Inl (ValueError (''invalid frequency '' @ data_frequency self)), w))"

text \<open>
  What a run leaves behind, in order: the calls to \<open>fetch_candles_chunk\<close> and to
  \<open>writer.write\<close> with their arguments, the debug line of a skipped chunk and the warning
  of the \<open>except\<close> clause. The other debug lines are not recorded.
\<close>

datatype event =
    Fetched "asset list" string timestamp rat
  | Wrote "(int \<times> series) list"
  | LogDebugChunkExists
  | LogWarnChunkExists chunk exn

record 'w run_state =
  world :: 'w
  this :: "'w exchange_bundle"
  previous_candles :: "asset \<rightharpoonup> candle"
  events :: "event list"

text \<open>The \<open>except BcolzMinuteOverlappingData\<close> clause: that exception is logged, any other one propagates.\<close>

definition except_overlapping :: "chunk \<Rightarrow> exn \<Rightarrow> 'w run_state \<Rightarrow> exn + 'w run_state" where
  "except_overlapping c e st =
     (if e = BcolzMinuteOverlappingData
      then Inr (st\<lparr>events := events st @ [LogWarnChunkExists c e]\<rparr>)
      else Inl e)"

text \<open>The \<open>try\<close> block: obtain the writer, write the chunk's data.\<close>

definition write_chunk ::
  "'w env \<Rightarrow> chunk \<Rightarrow> (int \<times> series) list \<Rightarrow> 'w run_state \<Rightarrow> exn + 'w run_state" where
  "write_chunk ev c data st =
     (case writer ev (world st) (this st) of
        (Inl e, w1) \<Rightarrow> except_overlapping c e (st\<lparr>world := w1\<rparr>)
      | (Inr (wr, self1), w1) \<Rightarrow>
          (case wr w1 data of
             (None, w2) \<Rightarrow>
               Inr (st\<lparr>world := w2, this := self1, events := events st @ [Wrote data]\<rparr>)
           | (Some e, w2) \<Rightarrow>
               except_overlapping c e
                 (st\<lparr>world := w2, this := self1, events := events st @ [Wrote data]\<rparr>)))"

text \<open>The body of \<open>for chunk in it\<close>; \<open>frequency\<close> is the token \<open>'1m'\<close> or \<open>'1d'\<close>.\<close>

definition process_chunk ::
  "'w env \<Rightarrow> string \<Rightarrow> 'w run_state \<Rightarrow> chunk \<Rightarrow> exn + 'w run_state" where
  "process_chunk ev frequency st c =
     (let chunk_end0 = chunk_end c;
          chunk_start0 = chunk_end0 - chunk_bar_count c;
          chunk_assets = filter (\<lambda>a. start_date a \<le> chunk_end0) (assets (this st)) in
      case check_data_exists ev (world st) (this st) chunk_assets chunk_start0 chunk_end0 of
        Inl e \<Rightarrow> Inl e
      | Inr (True, self1) \<Rightarrow>
          Inr (st\<lparr>this := self1, events := events st @ [LogDebugChunkExists]\<rparr>)
      | Inr (False, self1) \<Rightarrow>
          (case fetch_candles_chunk ev (world st) chunk_assets frequency chunk_end0
                  (chunk_bar_count c) of
             (Inl e, w1) \<Rightarrow> Inl e
           | (Inr candles, w1) \<Rightarrow>
               (case reconcile chunk_start0 chunk_end0 candles (previous_candles st) of
                  (previous_candle', data, num_candles) \<Rightarrow>
                    write_chunk ev c data
                      (st\<lparr>world := w1, this := self1, previous_candles := previous_candle',
                          events := events st @
                            [Fetched chunk_assets frequency chunk_end0 (chunk_bar_count c)]\<rparr>))))"

fun run_chunks :: "'w env \<Rightarrow> string \<Rightarrow> 'w run_state \<Rightarrow> chunk list \<Rightarrow> exn + 'w run_state" where
  "run_chunks ev frequency st [] = Inr st"
| "run_chunks ev frequency st (c # rest) =
     (case process_chunk ev frequency st c of
        Inl e \<Rightarrow> Inl e
      | Inr st' \<Rightarrow> run_chunks ev frequency st' rest)"

text \<open>\<open>ingest\<close>: \<open>None\<close> when the planning loop does not terminate.\<close>

definition ingest :: "'w env \<Rightarrow> 'w \<Rightarrow> 'w exchange_bundle \<Rightarrow> (exn + 'w run_state) option" where
  "ingest ev w self =
     (case delta_periods (data_frequency self) (start self) (end_dt self) of
        Inl e \<Rightarrow> Some (Inl e)
      | Inr (periods, frequency) \<Rightarrow>
          (case plan_chunks (num_candles_limit ev) (start self) (end_dt self) periods of
             None \<Rightarrow> None
           | Some chunks \<Rightarrow>
               Some (run_chunks ev frequency
                       \<lparr>world = w, this = self, previous_candles = Map.empty, events = []\<rparr>
                       chunks)))"

section \<open>Notions of the specification\<close>

text \<open>A store value that is readable and not NaN.\<close>

definition readable :: "reading \<Rightarrow> bool" where
  "readable r = (case r of ReadValue v \<Rightarrow> True | _ \<Rightarrow> False)"

text \<open>
  The window that the specification gives a chunk: the half-open interval from
  \<open>end - bar_count\<close> (excluded) to \<open>end\<close> (included), in periods of one minute.
\<close>

definition in_half_open_window :: "timestamp \<Rightarrow> chunk \<Rightarrow> bool" where
  "in_half_open_window t c = (chunk_end c - chunk_bar_count c < t \<and> t \<le> chunk_end c)"

definition covered_half_open :: "chunk list \<Rightarrow> timestamp \<Rightarrow> bool" where
  "covered_half_open chunks t = list_ex (in_half_open_window t) chunks"

text \<open>The timestamps that the pipeline visits in the window of a chunk: one per minute from its start to its end.\<close>

definition walk_dates :: "timestamp \<Rightarrow> timestamp \<Rightarrow> timestamp list" where
  "walk_dates chunk_start0 chunk_end0 =
     map (\<lambda>k. chunk_start0 + of_nat k) [0 ..< nat (\<lfloor>chunk_end0 - chunk_start0\<rfloor> + 1)]"

text \<open>Whether the planned chunks of a range cover the timestamp \<open>t\<close> with their half-open windows.\<close>

definition spec_covered :: "string \<Rightarrow> int \<Rightarrow> timestamp \<Rightarrow> timestamp \<Rightarrow> timestamp \<Rightarrow> bool" where
  "spec_covered freq limit self_start self_end t =
     (case planned_chunks freq limit self_start self_end of
        Some (Inr chunks) \<Rightarrow> covered_half_open chunks t
      | _ \<Rightarrow> False)"

text \<open>The chunk that the \<open>k\<close>-th round of the backward walk appends, counting from 0.\<close>

definition walked_chunk :: "timestamp \<Rightarrow> int \<Rightarrow> nat \<Rightarrow> chunk" where
  "walked_chunk last_chunk_date bar_count k =
     \<lparr>chunk_end = last_chunk_date - of_nat k * of_int (bar_count + 1),
      chunk_bar_count = of_int bar_count\<rparr>"

text \<open>
  Forward fill over a list of dates: the candle fetched for a date if there is one, else
  the candle carried so far, else no row. \<open>carried_after\<close> is the candle carried once the
  dates have been passed.
\<close>

definition candle_for :: "candle list \<Rightarrow> candle option \<Rightarrow> timestamp \<Rightarrow> candle option" where
  "candle_for asset_candles previous date =
     (case find (\<lambda>c. last_traded c = date) asset_candles of
        Some c \<Rightarrow> Some c
      | None \<Rightarrow> previous)"

fun fill_dates :: "candle list \<Rightarrow> candle option \<Rightarrow> timestamp list \<Rightarrow> series" where
  "fill_dates asset_candles previous [] = []"
| "fill_dates asset_candles previous (d # ds) =
     (case candle_for asset_candles previous d of
        Some c \<Rightarrow> (d, c) # fill_dates asset_candles (Some c) ds
      | None \<Rightarrow> fill_dates asset_candles None ds)"

fun carried_after :: "candle list \<Rightarrow> candle option \<Rightarrow> timestamp list \<Rightarrow> candle option" where
  "carried_after asset_candles previous [] = previous"
| "carried_after asset_candles previous (d # ds) =
     carried_after asset_candles (candle_for asset_candles previous d) ds"

text \<open>The timestamps visited in the window of one chunk, and in the windows of a chunk list in order.\<close>

definition chunk_dates :: "chunk \<Rightarrow> timestamp list" where
  "chunk_dates c = walk_dates (chunk_start_of c) (chunk_end c)"

definition visited_dates :: "chunk list \<Rightarrow> timestamp list" where
  "visited_dates chunks = concat (map chunk_dates chunks)"

text \<open>The first fetched candle whose \<open>last_traded\<close> is the timestamp \<open>t\<close>, if there is one.\<close>

definition fetched_at :: "candle list \<Rightarrow> timestamp \<Rightarrow> candle option" where
  "fetched_at asset_candles t = find (\<lambda>c. last_traded c = t) asset_candles"

section \<open>Concrete inputs\<close>

text \<open>
  A small store and exchange over the state type \<open>unit\<close>: the reader knows asset 1 at every
  minute, has NaN for asset 2 at minute 10, and raises for every other asset; the exchange
  returns the candles \<open>demo_candles\<close> for the first asset it is asked for; the writer
  accepts everything.
\<close>

definition demo_asset :: "int \<Rightarrow> timestamp \<Rightarrow> asset" where
  "demo_asset n d = \<lparr>sid = n, symbol = ''btc_usd'', start_date = d\<rparr>"

definition demo_candle :: "timestamp \<Rightarrow> rat \<Rightarrow> candle" where
  "demo_candle t p =
     \<lparr>last_traded = t, candle_open = p, candle_high = p, candle_low = p, candle_close = p,
      candle_volume = 1\<rparr>"

definition demo_reader :: "unit reader" where
  "demo_reader w s t field =
     (if s = 1 then ReadValue 5
      else if s = 2 then (if t = 10 then ReadNaN else ReadValue 7)
      else ReadRaises)"

definition demo_writer :: "unit writer" where
  "demo_writer w data = (None, w)"

definition overlapping_writer :: "unit writer" where
  "overlapping_writer w data = (Some BcolzMinuteOverlappingData, w)"

definition demo_env :: "unit writer \<Rightarrow> unit env" where
  "demo_env wr =
     \<lparr>num_candles_limit = 2,
      fetch_candles_chunk =
        (\<lambda>w chunk_assets frequency chunk_end0 n.
           (Inr (map (\<lambda>a. (a, [demo_candle chunk_end0 3])) chunk_assets), w)),
      BcolzMinuteBarReader = (\<lambda>w. Inr demo_reader),
      BcolzDailyBarReader = (\<lambda>w. Inl IOError),
      BcolzMinuteBarWriter = (\<lambda>w. (Inr wr, w)),
      BcolzDailyBarWriter = (\<lambda>w. (Inr wr, w))\<rparr>"

definition demo_bundle :: "string \<Rightarrow> asset list \<Rightarrow> unit exchange_bundle" where
  "demo_bundle freq xs =
     \<lparr>data_frequency = freq, assets = xs, start = 0, end_dt = 10,
      cached_reader = None, cached_writer = None\<rparr>"

definition demo_state :: "string \<Rightarrow> asset list \<Rightarrow> unit run_state" where
  "demo_state freq xs =
     \<lparr>world = (), this = demo_bundle freq xs, previous_candles = Map.empty, events = []\<rparr>"

text \<open>An exchange that has a candle for the chunk that ends at minute 2 and none for any other chunk.\<close>

definition sparse_env :: "unit env" where
  "sparse_env =
     (demo_env demo_writer)
       \<lparr>fetch_candles_chunk :=
          (\<lambda>w chunk_assets frequency chunk_end0 n.
             (Inr (map (\<lambda>a. (a, if chunk_end0 = 2 then [demo_candle 2 5] else [])) chunk_assets),
              w))\<rparr>"

section \<open>Range resolution\<close>

lemma earliest_trade_loop_fold:
  "earliest_trade_loop (Some e) xs = Some (fold min (map start_date xs) e)"
proof (induction xs arbitrary: e)
  case Nil
  show ?case by simp
next
  case (Cons a xs)
  have "(if e > start_date a then start_date a else e) = min (start_date a) e"
    by (simp add: min_def)
  with Cons show ?case by simp
qed

lemma earliest_trade_loop_Some:
  "earliest_trade_loop (Some e) xs = Some (Min (insert e (start_date ` set xs)))"
proof -
  have "Min (set (e # map start_date xs)) = fold min (map start_date xs) e"
    by (rule Min.set_eq_fold)
  then show ?thesis by (simp add: earliest_trade_loop_fold)
qed

lemma earliest_trade_loop_None:
  "earliest_trade_loop None xs = (if xs = [] then None else Some (Min (start_date ` set xs)))"
  by (cases xs) (simp_all add: earliest_trade_loop_Some)

text \<open>
  C5: whenever the adjusted start (the requested start raised to the earliest
  \<open>start_date\<close> of the assets) is not before the adjusted end (the requested end clamped
  to \<open>now\<close>), \<open>get_adj_dates\<close> raises the \<open>ValueError\<close> of an invalid range and returns
  no range.
\<close>

theorem get_adj_dates_invalid_range:
  assumes "self_assets \<noteq> []"
    and "max start0 (Min (start_date ` set self_assets)) \<ge> min end0 now"
  shows "get_adj_dates now self_assets start0 end0 =
           Inl (ValueError ''start date cannot be after end date'')"
  using assms
  by (auto simp add: get_adj_dates_def earliest_trade_loop_None Let_def max_def min_def
      split: if_splits)

theorem get_adj_dates_invalid_range_witness:
  "[demo_asset 1 10] \<noteq> []
   \<and> max 20 (Min (start_date ` set [demo_asset 1 10])) \<ge> min 15 (100 :: rat)
   \<and> get_adj_dates 100 [demo_asset 1 10] 20 15 =
       Inl (ValueError ''start date cannot be after end date'')"
  using get_adj_dates_invalid_range [of "[demo_asset 1 10]" 15 100 20]
  by (simp add: demo_asset_def)

text \<open>
  C6: when \<open>get_adj_dates\<close> returns a range, its start is at least the smallest
  \<open>start_date\<close> of the assets, its end is at most \<open>now\<close>; the end is \<open>now\<close> when the
  requested end was in the future and the requested end otherwise.
\<close>

theorem get_adj_dates_bounds:
  assumes "get_adj_dates now self_assets start0 end0 = Inr (start1, end1)"
  shows "self_assets \<noteq> [] \<and> Min (start_date ` set self_assets) \<le> start1 \<and> end1 \<le> now
         \<and> (end0 > now \<longrightarrow> end1 = now) \<and> (\<not> end0 > now \<longrightarrow> end1 = end0)"
proof -
  have ne: "self_assets \<noteq> []"
    using assms by (auto simp add: get_adj_dates_def earliest_trade_loop_None Let_def)
  define m where "m = Min (start_date ` set self_assets)"
  have loop: "earliest_trade_loop None self_assets = Some m"
    using ne by (simp add: earliest_trade_loop_None m_def)
  have "start1 = (if m > start0 then m else start0) \<and> end1 = (if end0 > now then now else end0)"
    using assms by (simp add: get_adj_dates_def loop Let_def split: if_splits)
  then have "m \<le> start1 \<and> end1 \<le> now \<and> (end0 > now \<longrightarrow> end1 = now) \<and> (\<not> end0 > now \<longrightarrow> end1 = end0)"
    by (simp split: if_splits)
  then show ?thesis using ne by (simp add: m_def)
qed

theorem get_adj_dates_bounds_witness:
  "get_adj_dates 100 [demo_asset 1 10, demo_asset 2 30] 5 200 = Inr (10, 100)
   \<and> Min (start_date ` set [demo_asset 1 10, demo_asset 2 30]) \<le> 10
   \<and> get_adj_dates 100 [demo_asset 1 10, demo_asset 2 30] 20 50 = Inr (20, 50)"
proof -
  have h1: "get_adj_dates 100 [demo_asset 1 10, demo_asset 2 30] 5 200 = Inr (10, 100)"
    by (simp add: get_adj_dates_def demo_asset_def)
  have h2: "get_adj_dates 100 [demo_asset 1 10, demo_asset 2 30] 20 50 = Inr (20, 50)"
    by (simp add: get_adj_dates_def demo_asset_def)
  from get_adj_dates_bounds [OF h1] get_adj_dates_bounds [OF h2] h1 h2
  show ?thesis by simp
qed

section \<open>The existence check\<close>

lemma endpoints_present_iff:
  "endpoints_present rd w a cs ce =
     (readable (rd w (sid a) cs ''close'') \<and> readable (rd w (sid a) ce ''close''))"
  by (simp add: endpoints_present_def readable_def split: reading.splits)

lemma reader_cached:
  "cached_reader self = Some rd \<Longrightarrow> reader ev w self = Inr (Some rd, self)"
  by (simp add: reader_def)

lemma reader_Some_caches:
  assumes "reader ev w self = Inr (Some rd, self')"
  shows "cached_reader self' = Some rd"
  using assms
  by (auto simp add: reader_def open_reader_def split: option.splits if_splits sum.splits exn.splits)

lemma check_data_exists_Nil:
  "check_data_exists ev w self [] cs ce = Inr (True, self)"
  by (simp add: check_data_exists_def)

lemma check_loop_False:
  "check_loop ev w cs ce xs False self = Inr (False, self)"
  by (induction xs) simp_all

lemma check_loop_cached:
  "cached_reader self = Some rd \<Longrightarrow>
   check_loop ev w cs ce xs b self =
     Inr (b \<and> (\<forall>a\<in>set xs. endpoints_present rd w a cs ce), self)"
proof (induction xs arbitrary: b)
  case Nil
  show ?case by simp
next
  case (Cons a xs)
  show ?case
  proof (cases b)
    case True
    with Cons show ?thesis by (auto simp add: reader_cached)
  next
    case False
    then show ?thesis by (simp add: check_loop_False)
  qed
qed

lemma check_data_exists_closed_form:
  assumes "chunk_assets \<noteq> []"
  shows "check_data_exists ev w self chunk_assets cs ce =
     (case reader ev w self of
        Inl e \<Rightarrow> Inl e
      | Inr (None, self') \<Rightarrow> Inr (False, self')
      | Inr (Some rd, self') \<Rightarrow>
          Inr (\<forall>a\<in>set chunk_assets. endpoints_present rd w a cs ce, self'))"
proof -
  obtain a rest where xs: "chunk_assets = a # rest"
    using assms by (cases chunk_assets) auto
  show ?thesis
  proof (cases "reader ev w self")
    case (Inl e)
    then show ?thesis by (simp add: check_data_exists_def xs)
  next
    case (Inr p)
    obtain rdo self' where p: "p = (rdo, self')" by (cases p)
    show ?thesis
    proof (cases rdo)
      case None
      with Inr p show ?thesis
        by (simp add: check_data_exists_def xs check_loop_False)
    next
      case (Some rd)
      with Inr p have "cached_reader self' = Some rd"
        by (simp add: reader_Some_caches)
      with Inr p Some show ?thesis
        by (auto simp add: check_data_exists_def xs check_loop_cached)
    qed
  qed
qed

text \<open>
  C4: for a non-empty asset list, \<open>check_data_exists\<close> returns true only if a reader
  exists and, for every asset, the close value at the start of the window and the one at
  its end are both readable and not NaN; and whenever the reader property yields no
  reader, or some asset has an endpoint that is missing, NaN or raises on reading, the
  result is false for the whole list.
\<close>

theorem check_data_exists_conservative:
  assumes "chunk_assets \<noteq> []"
  shows "(check_data_exists ev w self chunk_assets cs ce = Inr (True, self') \<longrightarrow>
            (\<exists>rd. reader ev w self = Inr (Some rd, self') \<and>
                  (\<forall>a\<in>set chunk_assets.
                     readable (rd w (sid a) cs ''close'') \<and> readable (rd w (sid a) ce ''close''))))
       \<and> (reader ev w self = Inr (rdo, self1) \<and>
            (rdo = None \<or>
             (\<exists>rd. rdo = Some rd \<and>
                (\<exists>a\<in>set chunk_assets.
                   \<not> readable (rd w (sid a) cs ''close'') \<or> \<not> readable (rd w (sid a) ce ''close'')))) \<longrightarrow>
            check_data_exists ev w self chunk_assets cs ce = Inr (False, self1))"
  unfolding check_data_exists_closed_form [OF assms]
  by (auto simp add: endpoints_present_iff split: sum.splits option.splits)

theorem check_data_exists_conservative_witness:
  "check_data_exists (demo_env demo_writer) () (demo_bundle ''minute'' [])
       [demo_asset 1 0, demo_asset 2 0] 0 10 =
     Inr (False, demo_bundle ''minute'' []\<lparr>cached_reader := Some demo_reader\<rparr>)
   \<and> check_data_exists (demo_env demo_writer) () (demo_bundle ''daily'' [])
       [demo_asset 1 0] 0 10 =
     Inr (False, demo_bundle ''daily'' [])
   \<and> readable (demo_reader () 1 0 ''close'') \<and> readable (demo_reader () 1 10 ''close'')"
proof -
  let ?ev = "demo_env demo_writer"
  let ?self = "demo_bundle ''minute'' []"
  let ?self' = "?self\<lparr>cached_reader := Some demo_reader\<rparr>"
  have r: "reader ?ev () ?self = Inr (Some demo_reader, ?self')"
    by (simp add: reader_def open_reader_def demo_env_def demo_bundle_def)
  have rd: "reader ?ev () (demo_bundle ''daily'' []) = Inr (None, demo_bundle ''daily'' [])"
    by (simp add: reader_def open_reader_def demo_env_def demo_bundle_def)
  have nan: "\<not> readable (demo_reader () (sid (demo_asset 2 0)) 10 ''close'')"
    by (simp add: readable_def demo_reader_def demo_asset_def)
  have t: "check_data_exists ?ev () ?self [demo_asset 1 0] 0 10 = Inr (True, ?self')"
    by (simp add: check_data_exists_def r endpoints_present_def demo_reader_def demo_asset_def)
  have a: "check_data_exists ?ev () ?self [demo_asset 1 0, demo_asset 2 0] 0 10 = Inr (False, ?self')"
    using check_data_exists_conservative
      [of "[demo_asset 1 0, demo_asset 2 0]" ?ev "()" ?self 0 10 ?self' "Some demo_reader" ?self']
      r nan
    by simp
  have b: "check_data_exists ?ev () (demo_bundle ''daily'' []) [demo_asset 1 0] 0 10
             = Inr (False, demo_bundle ''daily'' [])"
    using check_data_exists_conservative
      [of "[demo_asset 1 0]" ?ev "()" "demo_bundle ''daily'' []" 0 10 ?self' None
          "demo_bundle ''daily'' []"]
      rd
    by simp
  have c: "readable (demo_reader () 1 0 ''close'') \<and> readable (demo_reader () 1 10 ''close'')"
    using check_data_exists_conservative
      [of "[demo_asset 1 0]" ?ev "()" ?self 0 10 ?self' None ?self'] t r
    by (simp add: demo_asset_def)
  from a b c show ?thesis by simp
qed

section \<open>Chunks without an eligible asset\<close>

text \<open>
  C10: for an empty asset list \<open>check_data_exists\<close> returns true whatever the window, the
  store and the reader are (the reader is not even asked for); so a chunk for which no
  asset has \<open>start_date <= chunk_end\<close> is skipped: the state after it differs from the
  state before only by the debug line, with no fetch and no write.
\<close>

theorem empty_chunk_assets_skipped:
  "check_data_exists ev w self [] cs ce = Inr (True, self)
   \<and> (filter (\<lambda>a. start_date a \<le> chunk_end c) (assets (this st)) = [] \<longrightarrow>
        process_chunk ev frequency st c =
          Inr (st\<lparr>events := events st @ [LogDebugChunkExists]\<rparr>))"
  by (simp add: process_chunk_def Let_def check_data_exists_Nil)

theorem empty_chunk_assets_skipped_witness:
  "filter (\<lambda>a. start_date a \<le> chunk_end \<lparr>chunk_end = 10, chunk_bar_count = 2\<rparr>)
     (assets (this (demo_state ''minute'' [demo_asset 3 50]))) = []
   \<and> process_chunk (demo_env demo_writer) ''1m'' (demo_state ''minute'' [demo_asset 3 50])
       \<lparr>chunk_end = 10, chunk_bar_count = 2\<rparr> =
     Inr \<lparr>world = (), this = demo_bundle ''minute'' [demo_asset 3 50],
          previous_candles = Map.empty, events = [LogDebugChunkExists]\<rparr>"
  using empty_chunk_assets_skipped
    [where c = "\<lparr>chunk_end = 10, chunk_bar_count = 2\<rparr>"
       and st = "demo_state ''minute'' [demo_asset 3 50]"
       and ev = "demo_env demo_writer" and frequency = "''1m''"
       and w = "()" and self = "demo_bundle ''minute'' []" and cs = 0 and ce = 10]
  by (simp add: demo_state_def demo_bundle_def demo_asset_def)

section \<open>Overlapping writes\<close>

lemma process_chunk_write:
  assumes "check_data_exists ev (world st) (this st)
             (filter (\<lambda>a. start_date a \<le> chunk_end c) (assets (this st)))
             (chunk_end c - chunk_bar_count c) (chunk_end c) = Inr (False, self1)"
    and "fetch_candles_chunk ev (world st)
             (filter (\<lambda>a. start_date a \<le> chunk_end c) (assets (this st)))
             frequency (chunk_end c) (chunk_bar_count c) = (Inr candles, w1)"
    and "reconcile (chunk_end c - chunk_bar_count c) (chunk_end c) candles (previous_candles st)
           = (previous_candle', data, num_candles)"
  shows "process_chunk ev frequency st c =
           write_chunk ev c data
             (st\<lparr>world := w1, this := self1, previous_candles := previous_candle',
                 events := events st @
                   [Fetched (filter (\<lambda>a. start_date a \<le> chunk_end c) (assets (this st)))
                      frequency (chunk_end c) (chunk_bar_count c)]\<rparr>)"
  using assms by (simp add: process_chunk_def Let_def)

text \<open>
  C9: when the chunk is not skipped, its candles are fetched and the write of its data
  raises \<open>BcolzMinuteOverlappingData\<close>, the chunk ends normally: the state records the
  fetch, the write and the warning, and the run goes on with the next chunk from that
  state. Nothing here depends on the frequency of the bundle.
\<close>

theorem overlapping_write_continues:
  assumes "check_data_exists ev (world st) (this st)
             (filter (\<lambda>a. start_date a \<le> chunk_end c) (assets (this st)))
             (chunk_end c - chunk_bar_count c) (chunk_end c) = Inr (False, self1)"
    and "fetch_candles_chunk ev (world st)
             (filter (\<lambda>a. start_date a \<le> chunk_end c) (assets (this st)))
             frequency (chunk_end c) (chunk_bar_count c) = (Inr candles, w1)"
    and "reconcile (chunk_end c - chunk_bar_count c) (chunk_end c) candles (previous_candles st)
           = (previous_candle', data, num_candles)"
    and "writer ev w1 self1 = (Inr (wr, self2), w2)"
    and "wr w2 data = (Some BcolzMinuteOverlappingData, w3)"
    and "st' = st\<lparr>world := w3, this := self2, previous_candles := previous_candle',
                 events := events st @
                   [Fetched (filter (\<lambda>a. start_date a \<le> chunk_end c) (assets (this st)))
                      frequency (chunk_end c) (chunk_bar_count c),
                    Wrote data,
                    LogWarnChunkExists c BcolzMinuteOverlappingData]\<rparr>"
  shows "process_chunk ev frequency st c = Inr st'
         \<and> run_chunks ev frequency st (c # rest) = run_chunks ev frequency st' rest"
proof -
  have "process_chunk ev frequency st c = Inr st'"
    unfolding process_chunk_write [OF assms(1-3)]
    using assms(4-6) by (simp add: write_chunk_def except_overlapping_def)
  then show ?thesis by simp
qed

theorem overlapping_write_continues_witness:
  "process_chunk (demo_env overlapping_writer) ''1d'' (demo_state ''daily'' [demo_asset 3 0])
       \<lparr>chunk_end = 10, chunk_bar_count = 2\<rparr> =
     Inr ((demo_state ''daily'' [demo_asset 3 0])
          \<lparr>world := (),
           this := (demo_bundle ''daily'' [demo_asset 3 0])\<lparr>cached_writer := Some overlapping_writer\<rparr>,
           previous_candles := [demo_asset 3 0 \<mapsto> demo_candle 10 3],
           events := [Fetched [demo_asset 3 0] ''1d'' 10 2,
                      Wrote [(3, [(10, demo_candle 10 3)])],
                      LogWarnChunkExists \<lparr>chunk_end = 10, chunk_bar_count = 2\<rparr>
                        BcolzMinuteOverlappingData]\<rparr>)
   \<and> run_chunks (demo_env overlapping_writer) ''1d'' (demo_state ''daily'' [demo_asset 3 0])
       [\<lparr>chunk_end = 10, chunk_bar_count = 2\<rparr>] =
     Inr ((demo_state ''daily'' [demo_asset 3 0])
          \<lparr>world := (),
           this := (demo_bundle ''daily'' [demo_asset 3 0])\<lparr>cached_writer := Some overlapping_writer\<rparr>,
           previous_candles := [demo_asset 3 0 \<mapsto> demo_candle 10 3],
           events := [Fetched [demo_asset 3 0] ''1d'' 10 2,
                      Wrote [(3, [(10, demo_candle 10 3)])],
                      LogWarnChunkExists \<lparr>chunk_end = 10, chunk_bar_count = 2\<rparr>
                        BcolzMinuteOverlappingData]\<rparr>)"
proof -
  let ?ev = "demo_env overlapping_writer"
  let ?st = "demo_state ''daily'' [demo_asset 3 0]"
  let ?self = "demo_bundle ''daily'' [demo_asset 3 0]"
  let ?c = "\<lparr>chunk_end = 10, chunk_bar_count = 2\<rparr>"
  let ?a = "demo_asset 3 0"
  have h1: "check_data_exists ?ev (world ?st) (this ?st)
             (filter (\<lambda>a. start_date a \<le> chunk_end ?c) (assets (this ?st)))
             (chunk_end ?c - chunk_bar_count ?c) (chunk_end ?c) = Inr (False, ?self)"
    by (simp add: check_data_exists_def reader_def open_reader_def demo_env_def demo_bundle_def
        demo_state_def demo_asset_def)
  have h2: "fetch_candles_chunk ?ev (world ?st)
             (filter (\<lambda>a. start_date a \<le> chunk_end ?c) (assets (this ?st)))
             ''1d'' (chunk_end ?c) (chunk_bar_count ?c) = (Inr [(?a, [demo_candle 10 3])], ())"
    by (simp add: demo_env_def demo_state_def demo_bundle_def demo_asset_def)
  have h3: "reconcile (chunk_end ?c - chunk_bar_count ?c) (chunk_end ?c) [(?a, [demo_candle 10 3])]
              (previous_candles ?st)
           = ([?a \<mapsto> demo_candle 10 3], [(3, [(10, demo_candle 10 3)])], 1)"
    by (simp add: reconcile_def reconcile_asset_def fill_loop.simps demo_candle_def demo_asset_def
        demo_state_def)
  have h4: "writer ?ev () ?self = (Inr (overlapping_writer, ?self\<lparr>cached_writer := Some overlapping_writer\<rparr>), ())"
    by (simp add: writer_def open_writer_def demo_env_def demo_bundle_def)
  have h5: "overlapping_writer () [(3, [(10, demo_candle 10 3)])] = (Some BcolzMinuteOverlappingData, ())"
    by (simp add: overlapping_writer_def)
  from overlapping_write_continues [OF h1 h2 h3 h4 h5 refl, of "[]"]
  show ?thesis by (simp add: demo_state_def demo_bundle_def demo_asset_def)
qed

section \<open>Chunk planning\<close>

lemma map_walked_chunk_Suc:
  "map (walked_chunk lcd b) [0..<Suc n] =
     walked_chunk lcd b 0 # map (walked_chunk (lcd - of_int (b + 1)) b) [0..<n]"
proof -
  have "[0..<Suc n] = 0 # map Suc [0..<n]"
    by (simp add: upt_conv_Cons map_Suc_upt del: upt_Suc)
  moreover have "walked_chunk lcd b (Suc k) = walked_chunk (lcd - of_int (b + 1)) b k" for k
    by (simp add: walked_chunk_def algebra_simps)
  ultimately show ?thesis by (simp add: comp_def del: upt_Suc)
qed

text \<open>
  For a limit that is not negative the backward walk terminates after some number \<open>n\<close> of
  rounds, and appends the chunks of rounds \<open>0\<close> to \<open>n - 1\<close>.
\<close>

lemma chunk_loop_closed_form:
  assumes "0 \<le> b"
  shows "\<exists>n. chunk_loop s b lcd acc = Some (acc @ map (walked_chunk lcd b) [0..<n])
             \<and> (\<forall>k<n. s + of_int b < lcd - of_nat k * of_int (b + 1))
             \<and> \<not> s + of_int b < lcd - of_nat n * of_int (b + 1)"
proof (induction "nat \<lceil>lcd - s - of_int b\<rceil>" arbitrary: lcd acc rule: less_induct)
  case less
  show ?case
  proof (cases "s + of_int b < lcd")
    case False
    then have "chunk_loop s b lcd acc = Some acc"
      by (subst chunk_loop.simps) simp
    with False have "chunk_loop s b lcd acc = Some (acc @ map (walked_chunk lcd b) [0..<0])
             \<and> (\<forall>k<0. s + of_int b < lcd - of_nat k * of_int (b + 1))
             \<and> \<not> s + of_int b < lcd - of_nat 0 * of_int (b + 1)"
      by simp
    then show ?thesis by blast
  next
    case True
    let ?lcd' = "lcd - of_int (b + 1)"
    let ?c = "\<lparr>chunk_end = lcd, chunk_bar_count = of_int b\<rparr>"
    have step: "chunk_loop s b lcd acc = chunk_loop s b ?lcd' (acc @ [?c])"
      using True by (subst chunk_loop.simps) simp
    have pos: "0 < lcd - s - of_int b" using True by simp
    have "(1::rat) \<le> of_int (b + 1)" using assms by simp
    then have "?lcd' - s - of_int b \<le> (lcd - s - of_int b) - 1" by simp
    then have "\<lceil>?lcd' - s - of_int b\<rceil> \<le> \<lceil>(lcd - s - of_int b) - 1\<rceil>"
      by (rule ceiling_mono)
    also have "\<dots> = \<lceil>lcd - s - of_int b\<rceil> - 1" by (rule ceiling_diff_one)
    finally have le: "\<lceil>?lcd' - s - of_int b\<rceil> \<le> \<lceil>lcd - s - of_int b\<rceil> - 1" .
    have "0 < \<lceil>lcd - s - of_int b\<rceil>" using pos by (simp only: zero_less_ceiling)
    with le have "nat \<lceil>?lcd' - s - of_int b\<rceil> < nat \<lceil>lcd - s - of_int b\<rceil>" by linarith
    from less [OF this, of "acc @ [?c]"]
    obtain n where n: "chunk_loop s b ?lcd' (acc @ [?c])
                         = Some ((acc @ [?c]) @ map (walked_chunk ?lcd' b) [0..<n])"
      and bound: "\<forall>k<n. s + of_int b < ?lcd' - of_nat k * of_int (b + 1)"
      and stop: "\<not> s + of_int b < ?lcd' - of_nat n * of_int (b + 1)"
      by blast
    have c0: "walked_chunk lcd b 0 = ?c" by (simp add: walked_chunk_def)
    have res: "chunk_loop s b lcd acc = Some (acc @ map (walked_chunk lcd b) [0..<Suc n])"
      unfolding step n map_walked_chunk_Suc c0 by simp
    have "s + of_int b < lcd - of_nat k * of_int (b + 1)" if "k < Suc n" for k
    proof (cases k)
      case 0
      with True show ?thesis by simp
    next
      case (Suc j)
      with that have "j < n" by simp
      with bound have "s + of_int b < ?lcd' - of_nat j * of_int (b + 1)" by blast
      moreover have "?lcd' - of_nat j * of_int (b + 1) = lcd - of_nat (Suc j) * of_int (b + 1)"
        by (simp add: algebra_simps)
      ultimately show ?thesis using Suc by simp
    qed
    moreover have "?lcd' - of_nat n * of_int (b + 1) = lcd - of_nat (Suc n) * of_int (b + 1)"
      by (simp add: algebra_simps)
    with stop have "\<not> s + of_int b < lcd - of_nat (Suc n) * of_int (b + 1)" by simp
    ultimately show ?thesis using res by blast
  qed
qed

text \<open>With a negative limit the loop, once entered, never ends.\<close>

lemma chunk_loop_diverges:
  assumes "b < 0" and "s + of_int b < lcd"
  shows "chunk_loop s b lcd acc = None"
proof (rule ccontr)
  assume "chunk_loop s b lcd acc \<noteq> None"
  then obtain r where r: "chunk_loop s b lcd acc = Some r" by blast
  have "b < 0 \<longrightarrow> s + of_int b < lcd \<longrightarrow> False"
  proof (rule chunk_loop.raw_induct
      [where P = "\<lambda>s b lcd acc r. b < 0 \<longrightarrow> s + of_int b < lcd \<longrightarrow> False", OF _ r], goal_cases)
    case (1 f s' b' lcd' acc' r')
    show ?case
    proof (intro impI)
      assume neg: "b' < 0" and gt: "s' + of_int b' < lcd'"
      then have call: "f s' b' (lcd' - of_int (b' + 1))
               (acc' @ [\<lparr>chunk_end = lcd', chunk_bar_count = of_int b'\<rparr>]) = Some r'"
        using 1(2) by simp
      have "(of_int (b' + 1) :: rat) \<le> 0" using neg by simp
      then have "s' + of_int b' < lcd' - of_int (b' + 1)" using gt by linarith
      with 1(1) [OF call] neg show False by blast
    qed
  qed
  with assms show False by blast
qed

lemma chunk_ends_decreasing:
  assumes "0 \<le> b"
  shows "sorted_wrt (\<lambda>x y. y < x) (map chunk_end (map (walked_chunk lcd b) [0..<n]))"
proof -
  have "chunk_end (walked_chunk lcd b j) < chunk_end (walked_chunk lcd b i)" if "i < j" for i j
  proof -
    have "(0::rat) < of_int (b + 1)" using assms by simp
    moreover have "(of_nat i :: rat) < of_nat j" using that by simp
    ultimately have "of_nat i * of_int (b + 1) < (of_nat j * of_int (b + 1) :: rat)"
      by (rule mult_strict_right_mono [rotated])
    then show ?thesis by (simp add: walked_chunk_def)
  qed
  then show ?thesis by (simp add: sorted_wrt_iff_nth_less del: upt_Suc)
qed

lemma plan_chunks_cases:
  assumes "plan_chunks limit s e periods = Some chunks"
  shows "chunks = [\<lparr>chunk_end = e, chunk_bar_count = periods\<rparr>] \<or> chunks = [] \<or>
         (0 \<le> limit \<and> (\<exists>n. chunks = rev (map (walked_chunk (of_int \<lfloor>e\<rfloor>) limit) [0..<n])
             \<and> (\<forall>k<n. s + of_int limit < of_int \<lfloor>e\<rfloor> - of_nat k * of_int (limit + 1))))"
proof (cases "periods > of_int limit")
  case False
  with assms show ?thesis by (simp add: plan_chunks_def)
next
  case True
  with assms obtain r where r: "chunk_loop s limit (of_int \<lfloor>e\<rfloor>) [] = Some r" and c: "chunks = rev r"
    by (auto simp add: plan_chunks_def)
  show ?thesis
  proof (cases "0 \<le> limit")
    case True
    from chunk_loop_closed_form [OF True, of s "of_int \<lfloor>e\<rfloor>" "[]"] r c
    show ?thesis using True by auto
  next
    case False
    then have neg: "limit < 0" by simp
    have "\<not> s + of_int limit < of_int \<lfloor>e\<rfloor>"
      using chunk_loop_diverges [OF neg, of s "of_int \<lfloor>e\<rfloor>" "[]"] r by auto
    then have "chunk_loop s limit (of_int \<lfloor>e\<rfloor>) [] = Some []"
      by (subst chunk_loop.simps) simp
    with r c show ?thesis by simp
  qed
qed

lemma plan_chunks_returns:
  assumes "0 \<le> limit"
  shows "\<exists>chunks. plan_chunks limit s e periods = Some chunks"
  using chunk_loop_closed_form [OF assms, of s "of_int \<lfloor>e\<rfloor>" "[]"]
  by (auto simp add: plan_chunks_def)

text \<open>\<open>ingest\<close> runs the chunks of \<open>planned_chunks\<close>, in their order.\<close>

lemma ingest_runs_planned_chunks:
  assumes "planned_chunks (data_frequency self) (num_candles_limit ev) (start self) (end_dt self)
             = Some (Inr chunks)"
  shows "\<exists>frequency. ingest ev w self =
           Some (run_chunks ev frequency
                   \<lparr>world = w, this = self, previous_candles = Map.empty, events = []\<rparr> chunks)"
  using assms
  by (auto simp add: planned_chunks_def ingest_def split: sum.splits prod.splits option.splits)

text \<open>
  C7: every chunk list that the planner produces, with one chunk or with many, is
  strictly increasing in the end timestamps of its chunks, in the order of execution;
  and the planner does produce a chunk list for a supported frequency and a limit that is
  not negative.
\<close>

theorem planned_chunks_increasing:
  "(planned_chunks freq limit s e = Some (Inr chunks) \<longrightarrow> sorted_wrt (<) (map chunk_end chunks))
   \<and> (0 \<le> limit \<and> (freq = ''minute'' \<or> freq = ''daily'') \<longrightarrow>
        (\<exists>planned. planned_chunks freq limit s e = Some (Inr planned)))"
proof (intro conjI impI)
  assume "planned_chunks freq limit s e = Some (Inr chunks)"
  then obtain periods where "plan_chunks limit s e periods = Some chunks"
    by (auto simp add: planned_chunks_def split: sum.splits prod.splits)
  from plan_chunks_cases [OF this] show "sorted_wrt (<) (map chunk_end chunks)"
  proof (elim disjE conjE exE)
    fix n
    assume "0 \<le> limit" and c: "chunks = rev (map (walked_chunk (of_int \<lfloor>e\<rfloor>) limit) [0..<n])"
    from chunk_ends_decreasing [OF \<open>0 \<le> limit\<close>, of "of_int \<lfloor>e\<rfloor>" n]
    show ?thesis unfolding c by (simp add: sorted_wrt_rev rev_map [symmetric] del: upt_Suc)
  qed simp_all
next
  assume h: "0 \<le> limit \<and> (freq = ''minute'' \<or> freq = ''daily'')"
  then have "delta_periods freq s e = Inr (e - s, ''1m'')
             \<or> delta_periods freq s e = Inr ((e - s) / 60 / 24, ''1d'')"
    by (auto simp add: delta_periods_def)
  then obtain periods frequency where "delta_periods freq s e = Inr (periods, frequency)"
    by blast
  moreover from h plan_chunks_returns [of limit s e periods]
  obtain planned where "plan_chunks limit s e periods = Some planned" by blast
  ultimately show "\<exists>planned. planned_chunks freq limit s e = Some (Inr planned)"
    by (simp add: planned_chunks_def)
qed

theorem planned_chunks_increasing_witness:
  "planned_chunks ''minute'' 2 0 7 =
     Some (Inr [\<lparr>chunk_end = 4, chunk_bar_count = 2\<rparr>, \<lparr>chunk_end = 7, chunk_bar_count = 2\<rparr>])
   \<and> sorted_wrt (<) (map chunk_end
        [\<lparr>chunk_end = 4, chunk_bar_count = 2\<rparr>, \<lparr>chunk_end = 7, chunk_bar_count = (2::rat)\<rparr>])
   \<and> (0::int) \<le> 1 \<and> (\<exists>planned. planned_chunks ''daily'' 1 0 4320 = Some (Inr planned))"
proof -
  have h: "planned_chunks ''minute'' 2 0 7 =
     Some (Inr [\<lparr>chunk_end = 4, chunk_bar_count = 2\<rparr>, \<lparr>chunk_end = 7, chunk_bar_count = 2\<rparr>])"
    by (simp add: planned_chunks_def plan_chunks_def delta_periods_def chunk_loop.simps)
  note t1 = planned_chunks_increasing
    [where freq = "''minute''" and limit = 2 and s = 0 and e = 7
       and chunks = "[\<lparr>chunk_end = 4, chunk_bar_count = 2\<rparr>, \<lparr>chunk_end = 7, chunk_bar_count = 2\<rparr>]"]
  note t2 = planned_chunks_increasing
    [where freq = "''daily''" and limit = 1 and s = 0 and e = 4320 and chunks = "[]"]
  have a: "sorted_wrt (<) (map chunk_end
        [\<lparr>chunk_end = 4, chunk_bar_count = 2\<rparr>, \<lparr>chunk_end = 7, chunk_bar_count = (2::rat)\<rparr>])"
    using conjunct1 [OF t1] h by blast
  have b: "\<exists>planned. planned_chunks ''daily'' 1 0 4320 = Some (Inr planned)"
    using conjunct2 [OF t2] by simp
  from h a b show ?thesis by simp
qed

section \<open>The minutes of a window\<close>

lemma walk_dates_done: "\<not> date \<le> chunk_end0 \<Longrightarrow> walk_dates date chunk_end0 = []"
proof -
  assume "\<not> date \<le> chunk_end0"
  then have "chunk_end0 - date < 0" by simp
  then have "\<lfloor>chunk_end0 - date\<rfloor> < 0" by (simp only: floor_less_zero)
  then have "nat (\<lfloor>chunk_end0 - date\<rfloor> + 1) = 0" by linarith
  then show ?thesis by (simp only: walk_dates_def upt_0 list.map)
qed

lemma walk_dates_step:
  assumes "date \<le> chunk_end0"
  shows "walk_dates date chunk_end0 = date # walk_dates (date + 1) chunk_end0"
proof -
  let ?m = "nat \<lfloor>chunk_end0 - date\<rfloor>"
  from assms have "0 \<le> chunk_end0 - date" by simp
  then have nonneg: "0 \<le> \<lfloor>chunk_end0 - date\<rfloor>" by (simp only: zero_le_floor)
  then have n: "nat (\<lfloor>chunk_end0 - date\<rfloor> + 1) = Suc ?m" by linarith
  have "\<lfloor>chunk_end0 - (date + 1)\<rfloor> = \<lfloor>(chunk_end0 - date) - 1\<rfloor>"
    by (simp add: diff_diff_eq)
  also have "\<dots> = \<lfloor>chunk_end0 - date\<rfloor> - 1" by (rule floor_diff_one)
  finally have n': "nat (\<lfloor>chunk_end0 - (date + 1)\<rfloor> + 1) = ?m" by linarith
  have "[0..<Suc ?m] = 0 # map Suc [0..<?m]"
    by (simp add: upt_conv_Cons map_Suc_upt del: upt_Suc)
  then have "map (\<lambda>k. date + of_nat k) [0..<Suc ?m]
               = date # map (\<lambda>k. date + 1 + of_nat k) [0..<?m]"
    by (simp add: comp_def add.assoc del: upt_Suc)
  then show ?thesis by (simp only: walk_dates_def n n')
qed

lemma walk_dates_nth:
  "k < length (walk_dates cs ce) \<Longrightarrow> walk_dates cs ce ! k = cs + of_nat k"
  by (simp add: walk_dates_def)

lemma walk_dates_length_iff:
  "k < length (walk_dates cs ce) \<longleftrightarrow> cs + of_nat k \<le> ce"
proof -
  have "k < length (walk_dates cs ce) \<longleftrightarrow> int k \<le> \<lfloor>ce - cs\<rfloor>"
    by (auto simp add: walk_dates_def)
  also have "\<dots> \<longleftrightarrow> of_int (int k) \<le> ce - cs" by (rule le_floor_iff)
  also have "\<dots> \<longleftrightarrow> cs + of_nat k \<le> ce" by auto
  finally show ?thesis .
qed

lemma walk_dates_strict: "sorted_wrt (<) (walk_dates cs ce)"
  by (simp add: walk_dates_def sorted_wrt_iff_nth_less)

lemma walk_dates_bounds:
  assumes "t \<in> set (walk_dates cs ce)"
  shows "cs \<le> t \<and> t \<le> ce"
proof -
  from assms obtain k where k: "k < length (walk_dates cs ce)" and t: "t = walk_dates cs ce ! k"
    by (auto simp add: in_set_conv_nth)
  from k have "cs + of_nat k \<le> ce" by (simp only: walk_dates_length_iff)
  moreover from k t have "t = cs + of_nat k" by (simp add: walk_dates_nth)
  ultimately show ?thesis by simp
qed

lemma walk_dates_back:
  "walk_dates (of_int L + 1 - of_nat m) (of_int L) =
     map (\<lambda>i. of_int L + 1 - of_nat m + of_nat i) [0..<m]"
proof -
  have "of_int L - (of_int L + 1 - of_nat m) = (of_int (int m - 1) :: rat)"
    by simp
  then have "\<lfloor>of_int L - (of_int L + 1 - of_nat m :: rat)\<rfloor> = int m - 1"
    by (simp only: floor_of_int)
  moreover have "nat (int m - 1 + 1) = m" by simp
  ultimately show ?thesis by (simp only: walk_dates_def)
qed

section \<open>Coverage of the range by the planned chunks\<close>

lemma chunk_dates_walked_chunk:
  assumes "0 \<le> b"
  shows "chunk_dates (walked_chunk lcd b k) =
           map (\<lambda>j. lcd + 1 - of_nat (Suc k) * of_int (b + 1) + of_nat j) [0..<nat (b + 1)]"
proof -
  have "\<lfloor>(of_int b :: rat)\<rfloor> = b" by (rule floor_of_int)
  moreover have "lcd - of_nat k * of_int (b + 1) - of_int b
                   = lcd + 1 - of_nat (Suc k) * of_int (b + 1)"
    by (simp add: algebra_simps)
  ultimately show ?thesis
    by (simp add: chunk_dates_def chunk_start_of_def walk_dates_def walked_chunk_def)
qed

lemma visited_dates_walked_chunks:
  assumes "0 \<le> b"
  shows "visited_dates (rev (map (walked_chunk lcd b) [0..<n])) =
           map (\<lambda>j. lcd + 1 - of_nat n * of_int (b + 1) + of_nat j) [0..<n * nat (b + 1)]"
proof (induction n)
  case 0
  show ?case by (simp add: visited_dates_def)
next
  case (Suc n)
  let ?m = "nat (b + 1)"
  let ?A = "lcd + 1 - of_nat (Suc n) * of_int (b + 1)"
  have m: "(of_nat ?m :: rat) = of_int (b + 1)" using assms by simp
  have "visited_dates (rev (map (walked_chunk lcd b) [0..<Suc n])) =
          chunk_dates (walked_chunk lcd b n) @ visited_dates (rev (map (walked_chunk lcd b) [0..<n]))"
    by (simp add: visited_dates_def)
  also have "\<dots> = map (\<lambda>j. ?A + of_nat j) [0..<?m]
                  @ map (\<lambda>j. lcd + 1 - of_nat n * of_int (b + 1) + of_nat j) [0..<n * ?m]"
    by (simp only: Suc.IH chunk_dates_walked_chunk [OF assms])
  also have "map (\<lambda>j. lcd + 1 - of_nat n * of_int (b + 1) + of_nat j) [0..<n * ?m]
               = map (\<lambda>i. ?A + of_nat i) (map (\<lambda>j. j + ?m) [0..<n * ?m])"
    by (simp add: comp_def m algebra_simps)
  also have "map (\<lambda>j. j + ?m) [0..<n * ?m] = [?m..<n * ?m + ?m]"
    by (rule map_add_upt)
  also have "map (\<lambda>j. ?A + of_nat j) [0..<?m] @ map (\<lambda>i. ?A + of_nat i) [?m..<n * ?m + ?m]
               = map (\<lambda>j. ?A + of_nat j) ([0..<?m] @ [?m..<n * ?m + ?m])"
    by simp
  also have "[0..<?m] @ [?m..<n * ?m + ?m] = [0..<Suc n * ?m]"
    using upt_add_eq_append [of 0 ?m "n * ?m"] by (simp add: add.commute)
  finally show ?case .
qed

lemma plan_chunks_many:
  assumes "0 \<le> limit" and "of_int limit < periods"
  shows "\<exists>n. plan_chunks limit s e periods = Some (rev (map (walked_chunk (of_int \<lfloor>e\<rfloor>) limit) [0..<n]))
             \<and> (\<forall>k<n. s + of_int limit < of_int \<lfloor>e\<rfloor> - of_nat k * of_int (limit + 1))
             \<and> \<not> s + of_int limit < of_int \<lfloor>e\<rfloor> - of_nat n * of_int (limit + 1)"
  using chunk_loop_closed_form [OF assms(1), of s "of_int \<lfloor>e\<rfloor>" "[]"] assms(2)
  by (auto simp add: plan_chunks_def)

text \<open>
  C1, as the code has it. For minute data and a request limit that is not negative the
  planner returns. When the range holds more periods than the limit, the windows of the
  planned chunks, walked from \<open>chunk_end - bar_count\<close> to \<open>chunk_end\<close> with both ends
  included, visit in order a run of consecutive minutes that ends at the end of the range
  floored to the minute and begins no later than \<open>limit + 1\<close> minutes after the start of the
  range: consecutive windows are adjacent, no minute lies in two windows, no visited minute
  lies before the start or after the end of the range, and every minute that is a whole
  number of minutes before the floored end and at least \<open>limit + 1\<close> minutes after the start
  is visited. Otherwise the single chunk has the window from the start to the end of the
  range. Whether the minutes less than \<open>limit + 1\<close> after the start are visited is left open.
\<close>

theorem planned_windows_tile:
  assumes "0 \<le> limit"
  shows "\<exists>chunks. planned_chunks ''minute'' limit s e = Some (Inr chunks) \<and>
           (if of_int limit < e - s
            then (\<exists>m. visited_dates chunks = walk_dates (of_int \<lfloor>e\<rfloor> + 1 - of_nat m) (of_int \<lfloor>e\<rfloor>)
                      \<and> of_int \<lfloor>e\<rfloor> + 1 - of_nat m \<le> s + of_int limit + 1)
                 \<and> distinct (visited_dates chunks)
                 \<and> (\<forall>t\<in>set (visited_dates chunks). s \<le> t \<and> t \<le> e)
                 \<and> (\<forall>j. s + of_int limit + 1 \<le> of_int \<lfloor>e\<rfloor> - of_nat j \<longrightarrow>
                         of_int \<lfloor>e\<rfloor> - of_nat j \<in> set (visited_dates chunks))
            else chunks = [\<lparr>chunk_end = e, chunk_bar_count = e - s\<rparr>]
                 \<and> chunk_start_of \<lparr>chunk_end = e, chunk_bar_count = e - s\<rparr> = s)"
proof (cases "of_int limit < e - s")
  case False
  then show ?thesis
    by (simp add: planned_chunks_def delta_periods_def plan_chunks_def chunk_start_of_def)
next
  case True
  let ?L = "of_int \<lfloor>e\<rfloor> :: rat"
  from plan_chunks_many [OF assms True, of s e]
  obtain n where p: "plan_chunks limit s e (e - s) = Some (rev (map (walked_chunk ?L limit) [0..<n]))"
    and bound: "\<forall>k<n. s + of_int limit < ?L - of_nat k * of_int (limit + 1)"
    and stop: "\<not> s + of_int limit < ?L - of_nat n * of_int (limit + 1)"
    by blast
  let ?chunks = "rev (map (walked_chunk ?L limit) [0..<n])"
  define m where "m = n * nat (limit + 1)"
  let ?first = "?L + 1 - of_nat m"
  have m: "(of_nat m :: rat) = of_nat n * of_int (limit + 1)"
    using assms by (simp add: m_def)
  have planned: "planned_chunks ''minute'' limit s e = Some (Inr ?chunks)"
    by (simp add: planned_chunks_def delta_periods_def p)
  have vis: "visited_dates ?chunks = map (\<lambda>i. ?first + of_nat i) [0..<m]"
    by (simp only: visited_dates_walked_chunks [OF assms] m m_def [symmetric])
  have tiles: "visited_dates ?chunks = walk_dates ?first ?L"
    by (simp only: vis walk_dates_back)
  have first: "?first \<le> s + of_int limit + 1"
    using stop by (simp add: m)
  have dist: "distinct (visited_dates ?chunks)"
    using walk_dates_strict [of ?first ?L] by (simp only: tiles strict_sorted_iff)
  have inside: "s \<le> t \<and> t \<le> e" if "t \<in> set (visited_dates ?chunks)" for t
  proof -
    from that obtain c where cin: "c \<in> set ?chunks" and t: "t \<in> set (chunk_dates c)"
      by (auto simp add: visited_dates_def)
    from cin obtain k where k: "k < n" and c: "c = walked_chunk ?L limit k" by auto
    from bound k have "s + of_int limit < ?L - of_nat k * of_int (limit + 1)" by blast
    then have "s \<le> chunk_start_of c"
      by (simp add: c chunk_start_of_def walked_chunk_def)
    moreover have "(0::rat) \<le> of_nat k * of_int (limit + 1)" using assms by simp
    then have "chunk_end c \<le> ?L" by (simp add: c walked_chunk_def)
    then have "chunk_end c \<le> e" using of_int_floor_le [of e] by linarith
    moreover from t have "chunk_start_of c \<le> t \<and> t \<le> chunk_end c"
      unfolding chunk_dates_def by (rule walk_dates_bounds)
    ultimately show ?thesis by linarith
  qed
  have cover: "?L - of_nat j \<in> set (visited_dates ?chunks)"
    if "s + of_int limit + 1 \<le> ?L - of_nat j" for j
  proof -
    from that first have "?L + 1 - of_nat m \<le> ?L - of_nat j" by linarith
    then have "(of_nat (Suc j) :: rat) \<le> of_nat m" by simp
    then have jm: "Suc j \<le> m" by (simp only: of_nat_le_iff)
    then have "of_nat (m - Suc j) = (of_nat m - of_nat (Suc j) :: rat)" by (simp only: of_nat_diff)
    then have "?first + of_nat (m - Suc j) = ?L - of_nat j" by simp
    moreover from jm have "m - Suc j < m" by simp
    ultimately have "?L - of_nat j \<in> (\<lambda>i. ?first + of_nat i) ` {0..<m}"
      by (metis (no_types, lifting) atLeastLessThan_iff image_eqI zero_le)
    then show ?thesis by (simp only: vis set_map set_upt)
  qed
  from tiles first have "\<exists>m. visited_dates ?chunks = walk_dates (?L + 1 - of_nat m) ?L
                         \<and> ?L + 1 - of_nat m \<le> s + of_int limit + 1"
    by blast
  with planned dist inside cover True show ?thesis by auto
qed

theorem planned_windows_tile_witness:
  "planned_chunks ''minute'' 2 0 7 =
     Some (Inr [\<lparr>chunk_end = 4, chunk_bar_count = 2\<rparr>, \<lparr>chunk_end = 7, chunk_bar_count = 2\<rparr>])
   \<and> distinct (visited_dates
        [\<lparr>chunk_end = 4, chunk_bar_count = 2\<rparr>, \<lparr>chunk_end = 7, chunk_bar_count = 2\<rparr>])
   \<and> 3 \<in> set (visited_dates
        [\<lparr>chunk_end = 4, chunk_bar_count = 2\<rparr>, \<lparr>chunk_end = 7, chunk_bar_count = 2\<rparr>])
   \<and> 5 \<in> set (visited_dates
        [\<lparr>chunk_end = 4, chunk_bar_count = 2\<rparr>, \<lparr>chunk_end = 7, chunk_bar_count = 2\<rparr>])
   \<and> visited_dates [\<lparr>chunk_end = 4, chunk_bar_count = 2\<rparr>, \<lparr>chunk_end = 7, chunk_bar_count = 2\<rparr>]
       = [2, 3, 4, 5, 6, 7]
   \<and> planned_chunks ''minute'' 2 0 2 = Some (Inr [\<lparr>chunk_end = 2, chunk_bar_count = 2\<rparr>])"
proof -
  let ?chunks = "[\<lparr>chunk_end = 4, chunk_bar_count = 2\<rparr>, \<lparr>chunk_end = 7, chunk_bar_count = (2::rat)\<rparr>]"
  have h: "planned_chunks ''minute'' 2 0 7 = Some (Inr ?chunks)"
    by (simp add: planned_chunks_def plan_chunks_def delta_periods_def chunk_loop.simps)
  have l: "(0::int) \<le> 2" by simp
  from planned_windows_tile [OF l, of 0 7] h
  have r: "distinct (visited_dates ?chunks)
         \<and> (\<forall>j. (0::rat) + of_int 2 + 1 \<le> of_int \<lfloor>7::rat\<rfloor> - of_nat j \<longrightarrow>
                 of_int \<lfloor>7::rat\<rfloor> - of_nat j \<in> set (visited_dates ?chunks))"
    by simp
  have d: "distinct (visited_dates ?chunks)" using r by blast
  have c3: "3 \<in> set (visited_dates ?chunks)"
    using conjunct2 [OF r, rule_format, of 4] by simp
  have c5: "5 \<in> set (visited_dates ?chunks)"
    using conjunct2 [OF r, rule_format, of 2] by simp
  have v: "visited_dates ?chunks = [2, 3, 4, 5, 6, 7]"
    by (simp add: visited_dates_def chunk_dates_def chunk_start_of_def walk_dates_def
        upt_conv_Cons)
  from planned_windows_tile [OF l, of 0 2]
  have "planned_chunks ''minute'' 2 0 2 = Some (Inr [\<lparr>chunk_end = 2, chunk_bar_count = 2\<rparr>])"
    by auto
  with h d c3 c5 v show ?thesis by simp
qed

text \<open>
  The claim C1 as the specification words it fails for the range from minute 0 to minute 7
  with a limit of 2: the planned chunks end at 4 and at 7; minute 5 lies between their
  half-open windows, and minute 1 lies before the oldest one.
\<close>

theorem half_open_windows_leave_gaps:
  "(0::rat) \<le> 5 \<and> (5::rat) \<le> 7 \<and> \<not> spec_covered ''minute'' 2 0 7 5
   \<and> (0::rat) \<le> 1 \<and> (1::rat) \<le> 7 \<and> \<not> spec_covered ''minute'' 2 0 7 1"
  by (simp add: spec_covered_def covered_half_open_def in_half_open_window_def
      planned_chunks_def plan_chunks_def delta_periods_def chunk_loop.simps)

section \<open>Forward fill\<close>

text \<open>The loop computes the forward fill over the dates of the window.\<close>

lemma fill_loop_rows:
  "fst (fill_loop a asset_candles ce date pc rows) =
     rows @ fill_dates asset_candles (pc a) (walk_dates date ce)"
proof (induction a asset_candles ce date pc rows rule: fill_loop.induct)
  case (1 a asset_candles ce date pc rows)
  show ?case
  proof (cases "date \<le> ce")
    case False
    then show ?thesis by (simp add: fill_loop.simps [of a asset_candles ce date] walk_dates_done)
  next
    case True
    note step = walk_dates_step [OF True]
    show ?thesis
    proof (cases "candle_for asset_candles (pc a) date")
      case None
      then have pn: "pc a = None" by (simp add: candle_for_def split: option.splits)
      from None have "fill_loop a asset_candles ce date pc rows
                        = fill_loop a asset_candles ce (date + 1) pc rows"
        using True by (simp add: fill_loop.simps [of a asset_candles ce date] candle_for_def)
      moreover from None True have "fst (fill_loop a asset_candles ce (date + 1) pc rows) =
          rows @ fill_dates asset_candles (pc a) (walk_dates (date + 1) ce)"
        by (intro "1.IH"(1)) (simp_all add: candle_for_def)
      ultimately show ?thesis using None by (simp add: step pn)
    next
      case (Some c)
      from Some have "fill_loop a asset_candles ce date pc rows
                        = fill_loop a asset_candles ce (date + 1) (pc(a \<mapsto> c)) (rows @ [(date, c)])"
        using True by (simp add: fill_loop.simps [of a asset_candles ce date] candle_for_def)
      moreover from Some True
      have "fst (fill_loop a asset_candles ce (date + 1) (pc(a \<mapsto> c)) (rows @ [(date, c)])) =
          (rows @ [(date, c)]) @ fill_dates asset_candles ((pc(a \<mapsto> c)) a) (walk_dates (date + 1) ce)"
        by (intro "1.IH"(2)) (simp_all add: candle_for_def)
      ultimately show ?thesis using Some by (simp add: step)
    qed
  qed
qed

text \<open>What the loop leaves in \<open>previous_candle\<close> for the asset.\<close>

lemma fill_loop_carried:
  "snd (fill_loop a asset_candles ce date pc rows) a =
     carried_after asset_candles (pc a) (walk_dates date ce)"
proof (induction a asset_candles ce date pc rows rule: fill_loop.induct)
  case (1 a asset_candles ce date pc rows)
  show ?case
  proof (cases "date \<le> ce")
    case False
    then show ?thesis by (simp add: fill_loop.simps [of a asset_candles ce date] walk_dates_done)
  next
    case True
    note step = walk_dates_step [OF True]
    show ?thesis
    proof (cases "candle_for asset_candles (pc a) date")
      case None
      from None have "fill_loop a asset_candles ce date pc rows
                        = fill_loop a asset_candles ce (date + 1) pc rows"
        using True by (simp add: fill_loop.simps [of a asset_candles ce date] candle_for_def)
      moreover from None True have "snd (fill_loop a asset_candles ce (date + 1) pc rows) a =
          carried_after asset_candles (pc a) (walk_dates (date + 1) ce)"
        by (intro "1.IH"(1)) (simp_all add: candle_for_def)
      moreover from None have "pc a = None" by (simp add: candle_for_def split: option.splits)
      ultimately show ?thesis using None by (simp add: step)
    next
      case (Some c)
      from Some have "fill_loop a asset_candles ce date pc rows
                        = fill_loop a asset_candles ce (date + 1) (pc(a \<mapsto> c)) (rows @ [(date, c)])"
        using True by (simp add: fill_loop.simps [of a asset_candles ce date] candle_for_def)
      moreover from Some True
      have "snd (fill_loop a asset_candles ce (date + 1) (pc(a \<mapsto> c)) (rows @ [(date, c)])) a =
          carried_after asset_candles ((pc(a \<mapsto> c)) a) (walk_dates (date + 1) ce)"
        by (intro "1.IH"(2)) (simp_all add: candle_for_def)
      ultimately show ?thesis using Some by (simp add: step)
    qed
  qed
qed

lemma fill_dates_dates: "set (map fst (fill_dates cs prev ds)) \<subseteq> set ds"
  by (induction ds arbitrary: prev) (auto split: option.splits)

lemma fill_dates_sorted:
  "sorted_wrt (<) ds \<Longrightarrow> sorted_wrt (<) (map fst (fill_dates cs prev ds))"
proof (induction ds arbitrary: prev)
  case Nil
  show ?case by simp
next
  case (Cons d ds)
  have "\<forall>x\<in>set (map fst (fill_dates cs p ds)). d < x" for p
    using Cons.prems fill_dates_dates [of cs p ds] by auto
  with Cons show ?case by (auto split: option.splits)
qed

lemma fill_dates_append:
  "fill_dates cs prev (xs @ ys) = fill_dates cs prev xs @ fill_dates cs (carried_after cs prev xs) ys"
proof (induction xs arbitrary: prev)
  case Nil
  show ?case by simp
next
  case (Cons x xs)
  show ?case by (cases "candle_for cs prev x") (simp_all add: Cons)
qed

lemma carried_after_snoc:
  "carried_after cs prev (xs @ [d]) = candle_for cs (carried_after cs prev xs) d"
  by (induction xs arbitrary: prev) simp_all

lemma carried_after_None_iff:
  "carried_after cs prev xs = None \<longleftrightarrow>
     prev = None \<and> (\<forall>x\<in>set xs. find (\<lambda>c. last_traded c = x) cs = None)"
  by (induction xs arbitrary: prev) (auto simp add: candle_for_def split: option.splits)

text \<open>The row of a date is the candle carried once that date has been passed.\<close>

lemma map_of_fill_dates:
  assumes "distinct (xs @ d # ys)"
  shows "map_of (fill_dates cs prev (xs @ d # ys)) d = carried_after cs prev (xs @ [d])"
proof -
  have nx: "d \<notin> set (map fst (fill_dates cs prev xs))"
    using assms fill_dates_dates [of cs prev xs] by auto
  have ny: "d \<notin> set (map fst (fill_dates cs p ys))" for p
    using assms fill_dates_dates [of cs p ys] by auto
  have "map_of (fill_dates cs prev (xs @ d # ys)) d
          = map_of (fill_dates cs (carried_after cs prev xs) (d # ys)) d"
    using nx by (simp add: fill_dates_append map_add_def map_of_eq_None_iff [symmetric]
        del: map_of_eq_None_iff split: option.splits)
  also have "\<dots> = candle_for cs (carried_after cs prev xs) d"
  proof (cases "candle_for cs (carried_after cs prev xs) d")
    case None
    with ny [of None] show ?thesis
      by (simp add: map_of_eq_None_iff [symmetric] del: map_of_eq_None_iff)
  next
    case (Some c)
    then show ?thesis by simp
  qed
  finally show ?thesis by (simp add: carried_after_snoc)
qed

lemma series_row:
  assumes "asset_candles \<noteq> []" and "cs + of_nat k \<le> ce"
  shows "map_of (asset_series cs ce a asset_candles pc) (cs + of_nat k) =
           carried_after asset_candles (pc a) (take (Suc k) (walk_dates cs ce))"
proof -
  let ?ds = "walk_dates cs ce"
  from assms(2) have k: "k < length ?ds" by (simp add: walk_dates_length_iff)
  have d: "?ds ! k = cs + of_nat k" using k by (rule walk_dates_nth)
  have split: "?ds = take k ?ds @ (cs + of_nat k) # drop (Suc k) ?ds"
    using id_take_nth_drop [OF k] d by simp
  have "distinct ?ds"
    using walk_dates_strict [of cs ce] by (simp add: strict_sorted_iff)
  then have dist: "distinct (take k ?ds @ (cs + of_nat k) # drop (Suc k) ?ds)"
    using split by simp
  have sorted: "sorted (map fst (fill_dates asset_candles (pc a) ?ds))"
    using fill_dates_sorted [OF walk_dates_strict, of asset_candles "pc a" cs ce]
    by (simp add: strict_sorted_iff)
  have "asset_series cs ce a asset_candles pc = fill_dates asset_candles (pc a) ?ds"
    using assms(1) sorted
    by (simp add: asset_series_def fill_loop_rows sort_key_id_if_sorted)
  also have "\<dots> = fill_dates asset_candles (pc a) (take k ?ds @ (cs + of_nat k) # drop (Suc k) ?ds)"
    using split by simp
  finally have "map_of (asset_series cs ce a asset_candles pc) (cs + of_nat k)
                  = carried_after asset_candles (pc a) (take k ?ds @ [cs + of_nat k])"
    by (simp only: map_of_fill_dates [OF dist])
  moreover have "take (Suc k) ?ds = take k ?ds @ [cs + of_nat k]"
    using take_Suc_conv_app_nth [OF k] d by simp
  ultimately show ?thesis by simp
qed

lemma carried_after_take_Suc:
  assumes "k < length ds"
  shows "carried_after cs prev (take (Suc k) ds) =
           candle_for cs (carried_after cs prev (take k ds)) (ds ! k)"
  by (simp add: take_Suc_conv_app_nth [OF assms] carried_after_snoc)

lemma fill_dates_all:
  "prev \<noteq> None \<Longrightarrow> map fst (fill_dates cs prev ds) = ds"
proof (induction ds arbitrary: prev)
  case Nil
  show ?case by simp
next
  case (Cons d ds)
  from Cons.prems have "candle_for cs prev d \<noteq> None"
    by (simp add: candle_for_def split: option.splits)
  then obtain c where "candle_for cs prev d = Some c" by blast
  with Cons.IH [of "Some c"] show ?case by simp
qed

lemma asset_series_fill_dates:
  assumes "asset_candles \<noteq> []"
  shows "asset_series cs ce a asset_candles pc =
           fill_dates asset_candles (pc a) (walk_dates cs ce)"
proof -
  have "sorted (map fst (fill_dates asset_candles (pc a) (walk_dates cs ce)))"
    using fill_dates_sorted [OF walk_dates_strict, of asset_candles "pc a" cs ce]
    by (simp add: strict_sorted_iff)
  then show ?thesis
    using assms by (simp add: asset_series_def fill_loop_rows sort_key_id_if_sorted)
qed

text \<open>\<open>asset_series\<close> is the series that the body of the loop over the assets appends to \<open>data\<close>.\<close>

lemma reconcile_asset_data:
  "fst (snd (reconcile_asset cs ce (a, asset_candles) (pc, data, n))) =
     (if asset_series cs ce a asset_candles pc = [] then data
      else data @ [(sid a, asset_series cs ce a asset_candles pc)])"
proof (cases "asset_candles = []")
  case True
  then show ?thesis by (simp add: reconcile_asset_def asset_series_def)
next
  case False
  have "sort_key fst rows = [] \<longleftrightarrow> rows = []" for rows :: series
    by (metis length_0_conv length_sort)
  then show ?thesis
    using False by (simp add: reconcile_asset_def asset_series_def split: prod.splits)
qed

text \<open>
  C2: when the fetched candles of an asset have a candle at minute \<open>t_a\<close> of the window
  and a later one at minute \<open>t_b\<close>, and none at the minutes strictly between them, the
  series of the asset has the candle of \<open>t_a\<close> at \<open>t_a\<close> and at every minute strictly
  between, and the candle of \<open>t_b\<close> at \<open>t_b\<close>. The minutes of the window are
  \<open>chunk_start + k\<close>; \<open>t_a\<close> is the one with \<open>k = i\<close>, \<open>t_b\<close> the one with \<open>k = j\<close>.
\<close>

theorem forward_fill_between:
  assumes "i < j" and "cs + of_nat j \<le> ce"
    and "fetched_at asset_candles (cs + of_nat i) = Some ca"
    and "fetched_at asset_candles (cs + of_nat j) = Some cb"
    and "\<forall>k. i < k \<and> k < j \<longrightarrow> fetched_at asset_candles (cs + of_nat k) = None"
  shows "(\<forall>k. i \<le> k \<and> k < j \<longrightarrow>
            map_of (asset_series cs ce a asset_candles pc) (cs + of_nat k) = Some ca)
         \<and> map_of (asset_series cs ce a asset_candles pc) (cs + of_nat j) = Some cb"
proof -
  let ?ds = "walk_dates cs ce"
  let ?carried = "\<lambda>k. carried_after asset_candles (pc a) (take (Suc k) ?ds)"
  from assms(3) have ne: "asset_candles \<noteq> []" by (auto simp add: fetched_at_def)
  from assms(2) have j: "j < length ?ds" by (simp add: walk_dates_length_iff)
  have step: "?carried k = candle_for asset_candles
                (carried_after asset_candles (pc a) (take k ?ds)) (cs + of_nat k)"
    if "k \<le> j" for k
  proof -
    from that j have k: "k < length ?ds" by simp
    show ?thesis using carried_after_take_Suc [OF k] walk_dates_nth [OF k] by simp
  qed
  have between: "?carried k = Some ca" if "i \<le> k" and "k < j" for k
    using that
  proof (induction k)
    case 0
    then have "i = 0" by simp
    with assms(3) step [of 0] show ?case by (simp add: candle_for_def fetched_at_def)
  next
    case (Suc k)
    show ?case
    proof (cases "i = Suc k")
      case True
      with assms(3) step [of "Suc k"] Suc.prems show ?thesis
        by (simp add: candle_for_def fetched_at_def)
    next
      case False
      with Suc.prems have ik: "i \<le> k" and kj: "k < j" and mid: "i < Suc k \<and> Suc k < j" by simp_all
      from assms(5) mid have "fetched_at asset_candles (cs + of_nat (Suc k)) = None" by blast
      moreover from Suc.IH [OF ik kj] have "?carried k = Some ca" .
      ultimately show ?thesis
        using step [of "Suc k"] Suc.prems by (simp add: candle_for_def fetched_at_def)
    qed
  qed
  have rows: "map_of (asset_series cs ce a asset_candles pc) (cs + of_nat k) = ?carried k"
    if "k \<le> j" for k
  proof -
    from that assms(2) have "cs + of_nat k \<le> ce"
      using of_nat_mono [OF that, where ?'a = rat] by linarith
    from series_row [OF ne this] show ?thesis .
  qed
  have "?carried j = Some cb"
    using step [of j] assms(4) by (simp add: candle_for_def fetched_at_def)
  with rows [of j] between rows show ?thesis by simp
qed

theorem forward_fill_between_witness:
  "asset_series 0 4 (demo_asset 1 0) [demo_candle 0 1, demo_candle 3 2] Map.empty =
     [(0, demo_candle 0 1), (1, demo_candle 0 1), (2, demo_candle 0 1),
      (3, demo_candle 3 2), (4, demo_candle 3 2)]
   \<and> map_of (asset_series 0 4 (demo_asset 1 0) [demo_candle 0 1, demo_candle 3 2] Map.empty) 1
       = Some (demo_candle 0 1)
   \<and> map_of (asset_series 0 4 (demo_asset 1 0) [demo_candle 0 1, demo_candle 3 2] Map.empty) 2
       = Some (demo_candle 0 1)
   \<and> map_of (asset_series 0 4 (demo_asset 1 0) [demo_candle 0 1, demo_candle 3 2] Map.empty) 3
       = Some (demo_candle 3 2)"
proof -
  let ?cs = "[demo_candle 0 1, demo_candle 3 2]"
  have ij: "(0::nat) < 3" by simp
  have h2: "(0::rat) + of_nat 3 \<le> 4" by simp
  have h3: "fetched_at ?cs (0 + of_nat 0) = Some (demo_candle 0 1)"
    by (simp add: fetched_at_def demo_candle_def)
  have h4: "fetched_at ?cs (0 + of_nat 3) = Some (demo_candle 3 2)"
    by (simp add: fetched_at_def demo_candle_def)
  have h5: "\<forall>k. 0 < k \<and> k < 3 \<longrightarrow> fetched_at ?cs (0 + of_nat k) = None"
    by (auto simp add: fetched_at_def demo_candle_def)
  have all: "asset_series 0 4 (demo_asset 1 0) ?cs Map.empty =
     [(0, demo_candle 0 1), (1, demo_candle 0 1), (2, demo_candle 0 1),
      (3, demo_candle 3 2), (4, demo_candle 3 2)]"
    by (simp add: asset_series_def fill_loop.simps demo_candle_def)
  note r = forward_fill_between [OF ij h2 h3 h4 h5, of "demo_asset 1 0" Map.empty]
  have k1: "map_of (asset_series 0 4 (demo_asset 1 0) ?cs Map.empty) 1 = Some (demo_candle 0 1)"
    using conjunct1 [OF r, rule_format, of 1] by simp
  have k2: "map_of (asset_series 0 4 (demo_asset 1 0) ?cs Map.empty) 2 = Some (demo_candle 0 1)"
    using conjunct1 [OF r, rule_format, of 2] by simp
  have k3: "map_of (asset_series 0 4 (demo_asset 1 0) ?cs Map.empty) 3 = Some (demo_candle 3 2)"
    using conjunct2 [OF r] by simp
  from k1 k2 k3 all show ?thesis by simp
qed

lemma reconcile_asset_carried:
  assumes "asset_candles \<noteq> []"
  shows "fst (reconcile_asset cs ce (a, asset_candles) (pc, data, n)) a =
           carried_after asset_candles (pc a) (walk_dates cs ce)"
proof -
  have "fst (reconcile_asset cs ce (a, asset_candles) (pc, data, n))
          = snd (fill_loop a asset_candles ce cs pc [])"
    using assms by (simp add: reconcile_asset_def split: prod.splits)
  then show ?thesis by (simp only: fill_loop_carried)
qed

text \<open>
  C3, as the code has it. For an asset with at least one fetched candle in the chunk the
  series is a forward fill of the window: it has at most one row for a minute of the
  window and no other rows; the row of a minute holds the candle fetched for that minute if
  there is one, and otherwise what the row of the minute before holds or, at the first
  minute of the window, the candle carried into the chunk, if any. So an asset with a
  carried candle gets a row at every minute of the window, and a row is missing exactly
  when no candle is carried into the chunk and no candle was fetched for that minute or
  for an earlier minute of the window. The candle carried out of the chunk is the one in
  the row of the last minute of the window. An asset with no fetched candle in the chunk
  gets no row at all, carried candle or not, and what is carried for it stays as it is.
\<close>

theorem carried_candle_fills_window:
  "(asset_candles \<noteq> [] \<and> pc a \<noteq> None \<longrightarrow>
      map fst (asset_series cs ce a asset_candles pc) = walk_dates cs ce)
   \<and> (asset_candles \<noteq> [] \<and> cs + of_nat k \<le> ce \<longrightarrow>
        map_of (asset_series cs ce a asset_candles pc) (cs + of_nat k) =
          (case fetched_at asset_candles (cs + of_nat k) of
             Some c \<Rightarrow> Some c
           | None \<Rightarrow>
               if k = 0 then pc a
               else map_of (asset_series cs ce a asset_candles pc) (cs + of_nat (k - 1))))
   \<and> (asset_candles \<noteq> [] \<and> cs + of_nat k \<le> ce \<longrightarrow>
        (map_of (asset_series cs ce a asset_candles pc) (cs + of_nat k) = None \<longleftrightarrow>
           pc a = None \<and> (\<forall>i\<le>k. fetched_at asset_candles (cs + of_nat i) = None)))
   \<and> (asset_candles \<noteq> [] \<and> cs + of_nat k \<le> ce \<and> \<not> cs + of_nat (Suc k) \<le> ce \<longrightarrow>
        fst (reconcile_asset cs ce (a, asset_candles) (pc, data, n)) a =
          map_of (asset_series cs ce a asset_candles pc) (cs + of_nat k))
   \<and> distinct (map fst (asset_series cs ce a asset_candles pc))
   \<and> set (map fst (asset_series cs ce a asset_candles pc)) \<subseteq> set (walk_dates cs ce)
   \<and> asset_series cs ce a [] pc = []
   \<and> reconcile_asset cs ce (a, []) (pc, data, n) = (pc, data, n)"
proof (intro conjI impI)
  assume "asset_candles \<noteq> [] \<and> pc a \<noteq> None"
  then show "map fst (asset_series cs ce a asset_candles pc) = walk_dates cs ce"
    by (simp add: asset_series_fill_dates fill_dates_all)
next
  assume h: "asset_candles \<noteq> [] \<and> cs + of_nat k \<le> ce"
  let ?ds = "walk_dates cs ce"
  let ?S = "asset_series cs ce a asset_candles pc"
  from h have ne: "asset_candles \<noteq> []" and le: "cs + of_nat k \<le> ce" by simp_all
  from le have k: "k < length ?ds" by (simp add: walk_dates_length_iff)
  have row: "map_of ?S (cs + of_nat k) =
               candle_for asset_candles (carried_after asset_candles (pc a) (take k ?ds))
                 (cs + of_nat k)"
    using series_row [OF ne le, of a pc] carried_after_take_Suc [OF k, of asset_candles "pc a"]
      walk_dates_nth [OF k]
    by simp
  have before: "carried_after asset_candles (pc a) (take k ?ds) =
                  (if k = 0 then pc a else map_of ?S (cs + of_nat (k - 1)))"
  proof (cases k)
    case 0
    then show ?thesis by simp
  next
    case (Suc j)
    have "(of_nat j :: rat) \<le> of_nat k" using Suc by simp
    with le have "cs + of_nat j \<le> ce" by linarith
    from series_row [OF ne this, of a pc] Suc show ?thesis by simp
  qed
  show "map_of ?S (cs + of_nat k) =
          (case fetched_at asset_candles (cs + of_nat k) of
             Some c \<Rightarrow> Some c
           | None \<Rightarrow> if k = 0 then pc a else map_of ?S (cs + of_nat (k - 1)))"
    by (simp only: row before candle_for_def fetched_at_def)
next
  assume h: "asset_candles \<noteq> [] \<and> cs + of_nat k \<le> ce"
  let ?ds = "walk_dates cs ce"
  from h have k: "k < length ?ds" by (simp add: walk_dates_length_iff)
  have "set (take (Suc k) ?ds) = (\<lambda>i. cs + of_nat i) ` {..k}"
  proof -
    have "take (Suc k) ?ds = map (\<lambda>i. cs + of_nat i) [0..<Suc k]"
      using k by (simp add: walk_dates_def take_map del: upt_Suc)
    then show ?thesis by (simp add: atLeast0LessThan lessThan_Suc_atMost del: upt_Suc)
  qed
  then have "(\<forall>x\<in>set (take (Suc k) ?ds). find (\<lambda>c. last_traded c = x) asset_candles = None)
               \<longleftrightarrow> (\<forall>i\<le>k. fetched_at asset_candles (cs + of_nat i) = None)"
    by (auto simp add: fetched_at_def)
  moreover from h have ne: "asset_candles \<noteq> []" and le: "cs + of_nat k \<le> ce" by simp_all
  have "map_of (asset_series cs ce a asset_candles pc) (cs + of_nat k) = None \<longleftrightarrow>
          pc a = None \<and>
          (\<forall>x\<in>set (take (Suc k) ?ds). find (\<lambda>c. last_traded c = x) asset_candles = None)"
    by (simp only: series_row [OF ne le] carried_after_None_iff)
  ultimately show "map_of (asset_series cs ce a asset_candles pc) (cs + of_nat k) = None \<longleftrightarrow>
           pc a = None \<and> (\<forall>i\<le>k. fetched_at asset_candles (cs + of_nat i) = None)"
    by blast
next
  assume h: "asset_candles \<noteq> [] \<and> cs + of_nat k \<le> ce \<and> \<not> cs + of_nat (Suc k) \<le> ce"
  let ?ds = "walk_dates cs ce"
  from h have ne: "asset_candles \<noteq> []" and le: "cs + of_nat k \<le> ce"
    and last: "\<not> cs + of_nat (Suc k) \<le> ce" by simp_all
  from le have "k < length ?ds" by (simp only: walk_dates_length_iff)
  moreover from last have "\<not> Suc k < length ?ds"
    using walk_dates_length_iff [of "Suc k" cs ce] by blast
  ultimately have "take (Suc k) ?ds = ?ds" by simp
  with series_row [OF ne le, of a pc] reconcile_asset_carried [OF ne, of cs ce a pc data n]
  show "fst (reconcile_asset cs ce (a, asset_candles) (pc, data, n)) a =
          map_of (asset_series cs ce a asset_candles pc) (cs + of_nat k)"
    by simp
next
  have strict: "sorted_wrt (<) (map fst (fill_dates asset_candles (pc a) (walk_dates cs ce)))"
    by (rule fill_dates_sorted [OF walk_dates_strict])
  show "distinct (map fst (asset_series cs ce a asset_candles pc))"
  proof (cases "asset_candles = []")
    case True
    then show ?thesis by (simp add: asset_series_def)
  next
    case False
    from strict show ?thesis
      by (simp only: asset_series_fill_dates [OF False] strict_sorted_iff)
  qed
next
  show "set (map fst (asset_series cs ce a asset_candles pc)) \<subseteq> set (walk_dates cs ce)"
  proof (cases "asset_candles = []")
    case True
    then show ?thesis by (simp add: asset_series_def)
  next
    case False
    show ?thesis by (simp only: asset_series_fill_dates [OF False] fill_dates_dates)
  qed
next
  show "asset_series cs ce a [] pc = []" by (simp add: asset_series_def)
next
  show "reconcile_asset cs ce (a, []) (pc, data, n) = (pc, data, n)"
    by (simp add: reconcile_asset_def)
qed

theorem carried_candle_fills_window_witness:
  "map fst (asset_series 3 5 (demo_asset 3 0) [demo_candle 4 6] [demo_asset 3 0 \<mapsto> demo_candle 2 5])
     = walk_dates 3 5
   \<and> asset_series 3 5 (demo_asset 3 0) [demo_candle 4 6] [demo_asset 3 0 \<mapsto> demo_candle 2 5]
     = [(3, demo_candle 2 5), (4, demo_candle 4 6), (5, demo_candle 4 6)]
   \<and> map_of (asset_series 3 5 (demo_asset 3 0) [demo_candle 4 6]
               [demo_asset 3 0 \<mapsto> demo_candle 2 5]) 3 = Some (demo_candle 2 5)
   \<and> fst (reconcile_asset 3 5 (demo_asset 3 0, [demo_candle 4 6])
            ([demo_asset 3 0 \<mapsto> demo_candle 2 5], [], 0)) (demo_asset 3 0)
       = Some (demo_candle 4 6)
   \<and> map_of (asset_series 3 5 (demo_asset 3 0) [demo_candle 4 6] Map.empty) 3 = None"
proof -
  let ?a = "demo_asset 3 0"
  let ?pc = "[?a \<mapsto> demo_candle 2 5]"
  let ?S = "asset_series 3 5 ?a [demo_candle 4 6] ?pc"
  have h1: "[demo_candle 4 6] \<noteq> [] \<and> ?pc ?a \<noteq> None" by simp
  have h2: "[demo_candle 4 6] \<noteq> [] \<and> (3::rat) + of_nat 0 \<le> 5" by simp
  have h3: "Map.empty ?a = None \<and> (\<forall>i\<le>0. fetched_at [demo_candle 4 6] (3 + of_nat i) = None)"
    by (simp add: fetched_at_def demo_candle_def)
  have h4: "[demo_candle 4 6] \<noteq> [] \<and> (3::rat) + of_nat 2 \<le> 5 \<and> \<not> (3::rat) + of_nat (Suc 2) \<le> 5"
    by simp
  have f3: "fetched_at [demo_candle 4 6] (3 + of_nat 0) = None"
    by (simp add: fetched_at_def demo_candle_def)
  note t1 = carried_candle_fills_window
    [where asset_candles = "[demo_candle 4 6]" and pc = ?pc and a = ?a and cs = 3 and ce = 5
       and k = 0 and data = "[]" and n = 0]
  note t2 = carried_candle_fills_window
    [where asset_candles = "[demo_candle 4 6]" and pc = Map.empty and a = ?a and cs = 3 and ce = 5
       and k = 0 and data = "[]" and n = 0]
  note t3 = carried_candle_fills_window
    [where asset_candles = "[demo_candle 4 6]" and pc = ?pc and a = ?a and cs = 3 and ce = 5
       and k = 2 and data = "[]" and n = 0]
  have a: "map fst ?S = walk_dates 3 5"
    using conjunct1 [OF t1] h1 by blast
  have b: "?S = [(3, demo_candle 2 5), (4, demo_candle 4 6), (5, demo_candle 4 6)]"
    by (simp add: asset_series_def fill_loop.simps demo_candle_def)
  have c: "map_of ?S 3 = Some (demo_candle 2 5)"
    using conjunct1 [OF conjunct2 [OF t1]] h2 f3 by simp
  have "fst (reconcile_asset 3 5 (?a, [demo_candle 4 6]) (?pc, [], 0)) ?a = map_of ?S (3 + of_nat 2)"
    using conjunct1 [OF conjunct2 [OF conjunct2 [OF conjunct2 [OF t3]]]] h4 by blast
  then have d: "fst (reconcile_asset 3 5 (?a, [demo_candle 4 6]) (?pc, [], 0)) ?a
                  = Some (demo_candle 4 6)"
    by (simp add: b)
  have e: "map_of (asset_series 3 5 ?a [demo_candle 4 6] Map.empty) 3 = None"
    using conjunct1 [OF conjunct2 [OF conjunct2 [OF t2]]] h2 h3 by simp
  from a b c d e show ?thesis by simp
qed

text \<open>
  The claim C3 as the specification words it fails in a run over two chunks, the windows
  from minute 0 to 2 and from minute 3 to 5, for one asset: the exchange has a candle at
  minute 2 in the first chunk and none in the second. After the first chunk the candle is
  carried, and still the second chunk writes no row for the asset.
\<close>

theorem carried_candle_not_filled_without_fetch:
  "run_chunks sparse_env ''1m'' (demo_state ''minute'' [demo_asset 3 0])
     [\<lparr>chunk_end = 2, chunk_bar_count = 2\<rparr>, \<lparr>chunk_end = 5, chunk_bar_count = 2\<rparr>] =
   Inr \<lparr>world = (),
        this = (demo_bundle ''minute'' [demo_asset 3 0])
                 \<lparr>cached_reader := Some demo_reader, cached_writer := Some demo_writer\<rparr>,
        previous_candles = [demo_asset 3 0 \<mapsto> demo_candle 2 5],
        events = [Fetched [demo_asset 3 0] ''1m'' 2 2,
                  Wrote [(3, [(2, demo_candle 2 5)])],
                  Fetched [demo_asset 3 0] ''1m'' 5 2,
                  Wrote []]\<rparr>
   \<and> asset_series 3 5 (demo_asset 3 0) [] [demo_asset 3 0 \<mapsto> demo_candle 2 5] = []
   \<and> reconcile 3 5 [(demo_asset 3 0, [])] [demo_asset 3 0 \<mapsto> demo_candle 2 5]
       = ([demo_asset 3 0 \<mapsto> demo_candle 2 5], [], 0)"
proof -
  let ?a = "demo_asset 3 0"
  let ?st = "demo_state ''minute'' [?a]"
  let ?self1 = "(demo_bundle ''minute'' [?a])
                 \<lparr>cached_reader := Some demo_reader, cached_writer := Some demo_writer\<rparr>"
  let ?st1 = "\<lparr>world = (), this = ?self1, previous_candles = [?a \<mapsto> demo_candle 2 5],
               events = [Fetched [?a] ''1m'' 2 2, Wrote [(3, [(2, demo_candle 2 5)])]]\<rparr>"
  have r1: "reconcile 0 2 [(?a, [demo_candle 2 5])] Map.empty
              = ([?a \<mapsto> demo_candle 2 5], [(3, [(2, demo_candle 2 5)])], 1)"
    by (simp add: reconcile_def reconcile_asset_def fill_loop.simps demo_candle_def demo_asset_def)
  have r2: "reconcile 3 5 [(?a, [])] [?a \<mapsto> demo_candle 2 5]
              = ([?a \<mapsto> demo_candle 2 5], [], 0)"
    by (simp add: reconcile_def reconcile_asset_def)
  have c1: "process_chunk sparse_env ''1m'' ?st \<lparr>chunk_end = 2, chunk_bar_count = 2\<rparr> = Inr ?st1"
    by (simp add: process_chunk_def Let_def check_data_exists_def reader_def open_reader_def
        endpoints_present_def demo_reader_def sparse_env_def demo_env_def demo_state_def
        demo_bundle_def demo_asset_def r1 [unfolded demo_asset_def]
        write_chunk_def writer_def open_writer_def demo_writer_def)
  have c2: "process_chunk sparse_env ''1m'' ?st1 \<lparr>chunk_end = 5, chunk_bar_count = 2\<rparr> =
              Inr (?st1\<lparr>events := events ?st1 @ [Fetched [?a] ''1m'' 5 2, Wrote []]\<rparr>)"
    by (simp add: process_chunk_def Let_def check_data_exists_def reader_def open_reader_def
        endpoints_present_def demo_reader_def sparse_env_def demo_env_def
        demo_bundle_def demo_asset_def r2 [unfolded demo_asset_def]
        write_chunk_def writer_def open_writer_def demo_writer_def)
  have "asset_series 3 5 ?a [] [?a \<mapsto> demo_candle 2 5] = []"
    by (simp add: asset_series_def)
  with c1 c2 r2 show ?thesis by simp
qed

section \<open>Daily bundles\<close>

text \<open>
  C8 at concrete inputs. A daily bundle over two days (minutes 0 to 2880) with a limit of
  5 gets one chunk of two periods, and the window of that chunk starts two minutes before
  its end, not two days. A daily bundle over three days with a limit of 1 enters the
  backward walk, and the walk steps by two minutes: after two rounds it has chunks ending
  at minutes 4320 and 4318 and goes on from minute 4316.
\<close>

theorem daily_chunks_in_minutes:
  "planned_chunks ''daily'' 5 0 2880 = Some (Inr [\<lparr>chunk_end = 2880, chunk_bar_count = 2\<rparr>])
   \<and> chunk_start_of \<lparr>chunk_end = 2880, chunk_bar_count = 2\<rparr> = 2878
   \<and> delta_periods ''daily'' 0 4320 = Inr (3, ''1d'')
   \<and> plan_chunks 1 0 4320 3 = map_option rev (chunk_loop 0 1 4320 [])
   \<and> chunk_loop 0 1 4320 [] =
       chunk_loop 0 1 4316
         [\<lparr>chunk_end = 4320, chunk_bar_count = 1\<rparr>, \<lparr>chunk_end = 4318, chunk_bar_count = 1\<rparr>]"
proof -
  have a: "planned_chunks ''daily'' 5 0 2880 = Some (Inr [\<lparr>chunk_end = 2880, chunk_bar_count = 2\<rparr>])"
    by (simp add: planned_chunks_def plan_chunks_def delta_periods_def)
  have b: "chunk_start_of \<lparr>chunk_end = 2880, chunk_bar_count = 2\<rparr> = 2878"
    by (simp add: chunk_start_of_def)
  have c: "delta_periods ''daily'' 0 4320 = Inr (3, ''1d'')"
    by (simp add: delta_periods_def)
  have d: "plan_chunks 1 0 4320 3 = map_option rev (chunk_loop 0 1 4320 [])"
    by (simp add: plan_chunks_def)
  have "chunk_loop 0 1 4320 [] = chunk_loop 0 1 4318 [\<lparr>chunk_end = 4320, chunk_bar_count = 1\<rparr>]"
    by (subst chunk_loop.simps) simp
  also have "\<dots> = chunk_loop 0 1 4316
         [\<lparr>chunk_end = 4320, chunk_bar_count = 1\<rparr>, \<lparr>chunk_end = 4318, chunk_bar_count = 1\<rparr>]"
    by (subst chunk_loop.simps) simp
  finally show ?thesis using a b c d by simp
qed

end
